theory Spec2Isabelle
  imports Complex_Main "HOL-Library.Log_Nat"
begin

section \<open>The math game: data model\<close>

text \<open>
  The component \<^verbatim>\<open>src/components/math-game.tsx\<close> keeps a grid of cells, a running
  value, the selected cell, a best score, a move counter and a game-over flag in React
  state. The model below passes that state explicitly.

  A JavaScript \<^verbatim>\<open>number\<close> is an IEEE 754 double. Every finite double is a
  rational number, so the type of numbers is \<^typ>\<open>rat\<close>, and the arithmetic of
  \<^verbatim>\<open>performOperation\<close> rounds each result to a double with the function \<open>fl\<close>
  below. Grid coordinates are integers (\<^typ>\<open>int\<close>), so that a negative or too
  large index can be written down.
\<close>

type_synonym number = rat

record Cell =
  cell_value :: number
  used :: bool
  cell_id :: string

type_synonym Grid = "Cell list list"

definition GRID_SIZE :: int where
  "GRID_SIZE = 4"

text \<open>
  The strings \<^verbatim>\<open>'add'\<close>, \<^verbatim>\<open>'subtract'\<close>, \<^verbatim>\<open>'multiply'\<close> and \<^verbatim>\<open>'divide'\<close>
  are the only values \<^verbatim>\<open>getDirection\<close> returns besides \<^verbatim>\<open>null\<close>; they are an
  enumeration.
\<close>

datatype Operation = Add | Subtract | Multiply | Divide

record GameState =
  grid :: Grid
  currentValue :: "number option"
  selectedCell :: "(int \<times> int) option"
  score :: number
  moves :: nat
  gameOver :: bool

text \<open>Reading a property of \<^verbatim>\<open>undefined\<close> throws a \<^verbatim>\<open>TypeError\<close>.\<close>

datatype error = TypeError

section \<open>The direction resolver\<close>

text \<open>
  \<^verbatim>\<open>getDirection(fromRow, fromCol, toRow, toCol)\<close>, with the checks in the order of
  the source; \<^verbatim>\<open>null\<close> is \<^const>\<open>None\<close>.
\<close>

definition getDirection :: "int \<Rightarrow> int \<Rightarrow> int \<Rightarrow> int \<Rightarrow> Operation option" where
  "getDirection fromRow fromCol toRow toCol =
    (let rowDiff = toRow - fromRow;
         colDiff = toCol - fromCol
     in if \<bar>rowDiff\<bar> > 1 \<or> \<bar>colDiff\<bar> > 1 then None
        else if rowDiff = 0 \<and> colDiff = 0 then None
        else if rowDiff = 0 \<and> colDiff = 1 then Some Add
        else if rowDiff = -1 \<and> colDiff = 0 then Some Add
        else if rowDiff = 0 \<and> colDiff = -1 then Some Subtract
        else if rowDiff = 1 \<and> colDiff = 0 then Some Subtract
        else if rowDiff = -1 \<and> colDiff = 1 then Some Multiply
        else if rowDiff = 1 \<and> colDiff = 1 then Some Multiply
        else if rowDiff = -1 \<and> colDiff = -1 then Some Divide
        else if rowDiff = 1 \<and> colDiff = -1 then Some Divide
        else None)"

text \<open>The Chebyshev distance of two grid coordinates, as the specification uses it.\<close>

definition chebyshev :: "int \<Rightarrow> int \<Rightarrow> int \<Rightarrow> int \<Rightarrow> int" where
  "chebyshev fromRow fromCol toRow toCol = max \<bar>toRow - fromRow\<bar> \<bar>toCol - fromCol\<bar>"

section \<open>Doubles\<close>

text \<open>
  Rounding to the nearest integer with a tie to the even one, the rounding mode of the
  arithmetic.
\<close>

definition round_half_even :: "rat \<Rightarrow> int" where
  "round_half_even y =
    (let f = \<lfloor>y\<rfloor>; d = y - of_int f
     in if d < 1 / 2 then f else if d > 1 / 2 then f + 1 else if even f then f else f + 1)"

text \<open>
  The binary exponent of a positive rational \<open>x\<close>: the integer \<open>e\<close> with
  \<open>2\<^sup>e \<le> x < 2\<^sup>e\<^sup>+\<^sup>1\<close>. For \<open>x = p / q\<close> it is the difference of the bit lengths
  of \<open>p\<close> and \<open>q\<close>, or one less.
\<close>

definition exponent :: "rat \<Rightarrow> int" where
  "exponent x =
    (case quotient_of x of (p, q) \<Rightarrow>
       let e = bitlen p - bitlen q in if 2 powi e \<le> x then e else e - 1)"

text \<open>
  The distance of neighbouring doubles around \<open>x\<close>: a double has 53 significant bits,
  and below \<open>2\<^sup>-\<^sup>1\<^sup>0\<^sup>2\<^sup>2\<close> (the subnormal numbers) the distance stays \<open>2\<^sup>-\<^sup>1\<^sup>0\<^sup>7\<^sup>4\<close>.
\<close>

definition ulp :: "rat \<Rightarrow> rat" where
  "ulp x = 2 powi (max (exponent \<bar>x\<bar> - 52) (- 1074))"

text \<open>
  The double nearest to \<open>x\<close>, a tie going to the even significand: the result of an
  arithmetic operation of JavaScript whose exact result is \<open>x\<close>. Three things of
  doubles have no counterpart here. Overflow to \<^verbatim>\<open>Infinity\<close> needs a magnitude of
  \<open>2\<^sup>1\<^sup>0\<^sup>2\<^sup>4\<close>; a game has at most 16 cells with values up to 9, and the lemmas
  \<open>reachable_no_overflow\<close> and \<open>divide_bound\<close> below show that no running value
  and no intermediate result of play comes near it. \<^verbatim>\<open>NaN\<close> needs a division of
  zero by zero, which the guard of the division excludes. The negative zero is the
  rational 0: it compares and adds like zero and is printed like it.
\<close>

definition fl :: "rat \<Rightarrow> rat" where
  "fl x = (if x = 0 then 0 else of_int (round_half_even (x / ulp x)) * ulp x)"

section \<open>The grid generator\<close>

text \<open>
  \<^verbatim>\<open>Math.floor\<close> and \<^verbatim>\<open>Math.round\<close>, which are exact on a double. The latter
  rounds to the nearest integer and a tie towards plus infinity.
\<close>

definition Math_floor :: "number \<Rightarrow> number" where
  "Math_floor x = of_int \<lfloor>x\<rfloor>"

definition Math_round :: "number \<Rightarrow> number" where
  "Math_round x = of_int \<lfloor>x + 1 / 2\<rfloor>"

text \<open>
  The decimal text a template literal puts in place of a loop counter (a non-negative
  integer).
\<close>

fun toString :: "nat \<Rightarrow> string" where
  "toString n =
    (if n < 10 then [''0123456789'' ! n]
     else toString (n div 10) @ [''0123456789'' ! (n mod 10)])"

declare toString.simps [simp del]

text \<open>
  \<^verbatim>\<open>generateInitialGrid\<close>. The two \<^verbatim>\<open>for\<close> loops are the functions
  \<open>inner_loop\<close> (over \<^verbatim>\<open>j\<close>, pushing cells on \<^verbatim>\<open>row\<close>) and \<open>outer_loop\<close>
  (over \<^verbatim>\<open>i\<close>, pushing rows on \<^verbatim>\<open>grid\<close>); both thread the counter
  \<^verbatim>\<open>id\<close>, here \<open>idc\<close>, and \<open>new_cell\<close> is the object pushed on the row.
  \<^verbatim>\<open>Math.random()\<close> is called once for every cell, just before \<^verbatim>\<open>id++\<close>, so
  the number of earlier draws is the value of the counter: the parameter \<open>random\<close>
  gives the result of the draw with that number. The product with 9 is not rounded
  here: it is only floored, for a double below 1 the floor is one of 0 to 8 with the
  rounding as without it, and the value of the cell is a small integer, which is a
  double.
\<close>

definition new_cell :: "(nat \<Rightarrow> number) \<Rightarrow> nat \<Rightarrow> nat \<Rightarrow> nat \<Rightarrow> Cell" where
  "new_cell random i j idc =
    \<lparr>cell_value = Math_floor (random idc * 9) + 1,
     used = False,
     cell_id = toString i @ ''-'' @ toString j @ ''-'' @ toString idc\<rparr>"

function inner_loop :: "(nat \<Rightarrow> number) \<Rightarrow> nat \<Rightarrow> nat \<Rightarrow> Cell list \<Rightarrow> nat \<Rightarrow> Cell list \<times> nat" where
  "inner_loop random i j row idc =
    (if int j < GRID_SIZE
     then inner_loop random i (j + 1) (row @ [new_cell random i j idc]) (idc + 1)
     else (row, idc))"
  by pat_completeness auto
termination
  by (relation "measure (\<lambda>(random, i, j, row, idc). nat (GRID_SIZE - int j))") auto

function outer_loop :: "(nat \<Rightarrow> number) \<Rightarrow> nat \<Rightarrow> Grid \<Rightarrow> nat \<Rightarrow> Grid" where
  "outer_loop random i g idc =
    (if int i < GRID_SIZE
     then (case inner_loop random i 0 [] idc of
             (row, idc') \<Rightarrow> outer_loop random (i + 1) (g @ [row]) idc')
     else g)"
  by pat_completeness auto
termination
  by (relation "measure (\<lambda>(random, i, g, idc). nat (GRID_SIZE - int i))") auto

declare inner_loop.simps [simp del] outer_loop.simps [simp del]

definition generateInitialGrid :: "(nat \<Rightarrow> number) \<Rightarrow> Grid" where
  "generateInitialGrid random = outer_loop random 0 [] 0"

text \<open>\<^verbatim>\<open>Math.random()\<close> returns a number that is at least 0 and less than 1.\<close>

definition valid_random :: "(nat \<Rightarrow> number) \<Rightarrow> bool" where
  "valid_random random = (\<forall>k. 0 \<le> random k \<and> random k < 1)"

section \<open>The move engine\<close>

text \<open>The state of a freshly mounted component, and \<^verbatim>\<open>resetGame\<close>.\<close>

definition initialState :: "(nat \<Rightarrow> number) \<Rightarrow> GameState" where
  "initialState random =
    \<lparr>grid = generateInitialGrid random, currentValue = None, selectedCell = None,
     score = 0, moves = 0, gameOver = False\<rparr>"

definition resetGame :: "GameState \<Rightarrow> (nat \<Rightarrow> number) \<Rightarrow> GameState" where
  "resetGame s random =
    s\<lparr>grid := generateInitialGrid random, currentValue := None, selectedCell := None,
      score := 0, moves := 0, gameOver := False\<rparr>"

text \<open>
  Reading an array at an index that is not one of its positions gives
  \<^verbatim>\<open>undefined\<close>, here \<^const>\<open>None\<close>.
\<close>

definition array_get :: "'a list \<Rightarrow> int \<Rightarrow> 'a option" where
  "array_get xs i = (if 0 \<le> i \<and> i < int (length xs) then Some (xs ! nat i) else None)"

text \<open>
  \<^verbatim>\<open>grid[row][col]\<close> followed by the read of a field of the cell, as in
  \<^verbatim>\<open>const cell = grid[row][col]; if (cell.used || ...)\<close>. When \<^verbatim>\<open>grid[row]\<close> is
  \<^verbatim>\<open>undefined\<close> the second index throws, and when the cell is \<^verbatim>\<open>undefined\<close>
  the field read throws.
\<close>

definition grid_cell :: "Grid \<Rightarrow> int \<Rightarrow> int \<Rightarrow> error + Cell" where
  "grid_cell g row col =
    (case array_get g row of
       None \<Rightarrow> Inl TypeError
     | Some r \<Rightarrow> (case array_get r col of None \<Rightarrow> Inl TypeError | Some cell \<Rightarrow> Inr cell))"

text \<open>
  \<^verbatim>\<open>const newGrid = grid.map(r => r.map(c => ({ ...c }))); newGrid[row][col].used = true\<close>:
  a copy of the grid in which one cell is used. It is only reached after the cell has
  been read from the grid.
\<close>

definition mark_used :: "Grid \<Rightarrow> int \<Rightarrow> int \<Rightarrow> Grid" where
  "mark_used g row col =
    (let newGrid = map (map (\<lambda>c. c)) g
     in newGrid[nat row := (newGrid ! nat row)[nat col := (newGrid ! nat row ! nat col)\<lparr>used := True\<rparr>]])"

text \<open>
  \<^verbatim>\<open>performOperation(targetRow, targetCol, operation)\<close>. The \<^verbatim>\<open>default\<close> branch
  of the \<^verbatim>\<open>switch\<close> is not reached with an operation of \<^verbatim>\<open>getDirection\<close>.
  The \<^verbatim>\<open>switch\<close> is \<open>compute_result\<close>: each of \<^verbatim>\<open>+\<close>, \<^verbatim>\<open>-\<close>, \<^verbatim>\<open>*\<close> and
  \<^verbatim>\<open>/\<close> gives the double nearest to the exact result, also the two of
  \<^verbatim>\<open>Math.round(result * 100) / 100\<close>.
\<close>

definition compute_result :: "Operation \<Rightarrow> number \<Rightarrow> number \<Rightarrow> number" where
  "compute_result operation cv v =
    (case operation of
       Add \<Rightarrow> fl (cv + v)
     | Subtract \<Rightarrow> fl (cv - v)
     | Multiply \<Rightarrow> fl (cv * v)
     | Divide \<Rightarrow>
         fl (Math_round (fl ((if v \<noteq> 0 then fl (cv / v) else cv) * 100)) / 100))"

definition performOperation :: "GameState \<Rightarrow> int \<Rightarrow> int \<Rightarrow> Operation \<Rightarrow> error + GameState" where
  "performOperation s targetRow targetCol operation =
    (case currentValue s of
       None \<Rightarrow> Inr s
     | Some cv \<Rightarrow>
        (case selectedCell s of
           None \<Rightarrow> Inr s
         | Some sel \<Rightarrow>
            (case grid_cell (grid s) targetRow targetCol of
               Inl e \<Rightarrow> Inl e
             | Inr targetCell \<Rightarrow>
                if used targetCell then Inr s
                else
                  (let result = compute_result operation cv (cell_value targetCell)
                   in Inr (s\<lparr>grid := mark_used (grid s) targetRow targetCol,
                             currentValue := Some result,
                             selectedCell := Some (targetRow, targetCol),
                             moves := moves s + 1,
                             score := (if result > score s then result else score s)\<rparr>)))))"

text \<open>
  \<^verbatim>\<open>handleCellPress(row, col)\<close>: the first selection when there is no running value,
  a move otherwise. \<^verbatim>\<open>selectedCell!.row\<close> throws when there is a running value and no
  selected cell.
\<close>

definition handleCellPress :: "GameState \<Rightarrow> int \<Rightarrow> int \<Rightarrow> error + GameState" where
  "handleCellPress s row col =
    (case grid_cell (grid s) row col of
       Inl e \<Rightarrow> Inl e
     | Inr cell \<Rightarrow>
        if used cell \<or> gameOver s then Inr s
        else
          (case currentValue s of
             None \<Rightarrow>
               Inr (s\<lparr>grid := mark_used (grid s) row col,
                       currentValue := Some (cell_value cell),
                       selectedCell := Some (row, col),
                       moves := moves s + 1\<rparr>)
           | Some cv \<Rightarrow>
              (case selectedCell s of
                 None \<Rightarrow> Inl TypeError
               | Some (selRow, selCol) \<Rightarrow>
                  (case getDirection selRow selCol row col of
                     None \<Rightarrow> Inr s
                   | Some operation \<Rightarrow> performOperation s row col operation))))"

section \<open>The terminal detector\<close>

text \<open>
  The two nested loops of the game-over effect visit the pairs of
  \<open>List.product [row - 1..row + 1] [col - 1..col + 1]\<close> in this order, and the
  \<^verbatim>\<open>break\<close>s leave both loops at the first unused neighbour.
\<close>

fun scan_neighbours :: "Grid \<Rightarrow> int \<Rightarrow> int \<Rightarrow> (int \<times> int) list \<Rightarrow> error + bool" where
  "scan_neighbours g row col [] = Inr False"
| "scan_neighbours g row col ((r, c) # rest) =
    (if r \<ge> 0 \<and> r < GRID_SIZE \<and> c \<ge> 0 \<and> c < GRID_SIZE
     then (case grid_cell g r c of
             Inl e \<Rightarrow> Inl e
           | Inr cell \<Rightarrow>
              if \<not> used cell \<and> \<not> (r = row \<and> c = col) then Inr True
              else scan_neighbours g row col rest)
     else scan_neighbours g row col rest)"

text \<open>
  The effect that runs after a change of the grid, the selection, the running value, the
  flag or the move counter.
\<close>

definition gameOverCheck :: "GameState \<Rightarrow> error + GameState" where
  "gameOverCheck s =
    (case selectedCell s of
       None \<Rightarrow> Inr s
     | Some (row, col) \<Rightarrow>
        if currentValue s = None \<or> gameOver s then Inr s
        else
          (let availableCells = length (filter (\<lambda>c. \<not> used c) (concat (grid s)))
           in case scan_neighbours (grid s) row col
                     (List.product [row - 1..row + 1] [col - 1..col + 1]) of
                Inl e \<Rightarrow> Inl e
              | Inr hasAvailableMoves \<Rightarrow>
                 if availableCells = 0 \<or> \<not> hasAvailableMoves
                 then Inr (s\<lparr>gameOver := True\<rparr>)
                 else Inr s))"

section \<open>Sessions\<close>

text \<open>
  A tap on a cell runs the handler; when the handler has changed the state, the component
  renders again and the game-over effect runs on the new state. A handler that returns
  early sets nothing, and nothing runs after it.
\<close>

definition onCellTapped :: "GameState \<Rightarrow> int \<Rightarrow> int \<Rightarrow> error + GameState" where
  "onCellTapped s row col =
    (case handleCellPress s row col of
       Inl e \<Rightarrow> Inl e
     | Inr s' \<Rightarrow> if s' = s then Inr s else gameOverCheck s')"

text \<open>
  The rendering. The game-over screen shows no cell. Otherwise
  \<^verbatim>\<open>grid.map((row, rowIndex) => ... row.map((cell, colIndex) => ...))\<close> makes one
  \<^verbatim>\<open>Pressable\<close> for every cell of the grid, with
  \<^verbatim>\<open>onPress={() => handleCellPress(rowIndex, colIndex)}\<close>; this is the only call of
  the handler. \<open>cellPressables\<close> lists the coordinates that have a pressable.
\<close>

definition cellPressables :: "GameState \<Rightarrow> (int \<times> int) list" where
  "cellPressables s =
    (if gameOver s then []
     else concat (map (\<lambda>(rowIndex, row).
            map (\<lambda>(colIndex, cell). (int rowIndex, int colIndex)) (enumerate 0 row))
          (enumerate 0 (grid s))))"

text \<open>
  A tap of the player at the place of a coordinate: the pressable of that coordinate runs
  its \<^verbatim>\<open>onPress\<close>, and where there is no pressable nothing is called.
\<close>

definition tapAt :: "GameState \<Rightarrow> int \<Rightarrow> int \<Rightarrow> error + GameState" where
  "tapAt s row col =
    (if (row, col) \<in> set (cellPressables s) then onCellTapped s row col else Inr s)"

text \<open>A sequence of taps; an exception ends it.\<close>

fun play :: "GameState \<Rightarrow> (int \<times> int) list \<Rightarrow> error + GameState" where
  "play s [] = Inr s"
| "play s ((row, col) # rest) =
    (case onCellTapped s row col of Inl e \<Rightarrow> Inl e | Inr s' \<Rightarrow> play s' rest)"

text \<open>
  The states of a running component: the state after mounting, and what taps and resets
  make of it.
\<close>

inductive reachable :: "GameState \<Rightarrow> bool" where
  fresh: "valid_random random \<Longrightarrow> reachable (initialState random)"
| tapped: "reachable s \<Longrightarrow> onCellTapped s row col = Inr s' \<Longrightarrow> reachable s'"
| reset: "reachable s \<Longrightarrow> valid_random random \<Longrightarrow> reachable (resetGame s random)"

text \<open>A grid of \<open>GRID_SIZE\<close> rows of \<open>GRID_SIZE\<close> cells, and a coordinate on it.\<close>

definition wf_grid :: "Grid \<Rightarrow> bool" where
  "wf_grid g = (int (length g) = GRID_SIZE \<and> list_all (\<lambda>row. int (length row) = GRID_SIZE) g)"

definition in_bounds :: "int \<Rightarrow> int \<Rightarrow> bool" where
  "in_bounds row col = (0 \<le> row \<and> row < GRID_SIZE \<and> 0 \<le> col \<and> col < GRID_SIZE)"

definition count_used :: "Grid \<Rightarrow> nat" where
  "count_used g = length (filter used (concat g))"

section \<open>The outcomes of a tap\<close>

text \<open>
  The state the handler sets at a first selection on \<open>cell\<close>, and the state
  \<^verbatim>\<open>performOperation\<close> sets when it has computed \<open>result\<close>: the record updates
  of \<open>handleCellPress\<close> and \<open>performOperation\<close> above, named for the lemmas.
\<close>

definition first_selection :: "GameState \<Rightarrow> int \<Rightarrow> int \<Rightarrow> Cell \<Rightarrow> GameState" where
  "first_selection s row col cell =
    s\<lparr>grid := mark_used (grid s) row col,
      currentValue := Some (cell_value cell),
      selectedCell := Some (row, col),
      moves := moves s + 1\<rparr>"

definition applied_move :: "GameState \<Rightarrow> int \<Rightarrow> int \<Rightarrow> number \<Rightarrow> GameState" where
  "applied_move s row col result =
    s\<lparr>grid := mark_used (grid s) row col,
      currentValue := Some result,
      selectedCell := Some (row, col),
      moves := moves s + 1,
      score := (if result > score s then result else score s)\<rparr>"

text \<open>
  The words of the specification for the terminal detector: all cells of the grid are
  used; the unused cells among the neighbours of a coordinate that lie on the grid.
\<close>

definition all_used :: "Grid \<Rightarrow> bool" where
  "all_used g = list_all used (concat g)"

definition unused_neighbours :: "Grid \<Rightarrow> int \<Rightarrow> int \<Rightarrow> (int \<times> int) list" where
  "unused_neighbours g row col =
    filter (\<lambda>(r, c). chebyshev row col r c = 1 \<and> \<not> used (g ! nat r ! nat c))
      (List.product [0..GRID_SIZE - 1] [0..GRID_SIZE - 1])"

text \<open>
  The contract \<^verbatim>\<open>isTerminal(state)\<close> of the specification: with a selected cell,
  the state is terminal when all cells are used or no neighbour of the selected cell is
  unused; without one it is not terminal.
\<close>

definition isTerminal :: "GameState \<Rightarrow> bool" where
  "isTerminal s =
    (case selectedCell s of
       None \<Rightarrow> False
     | Some (row, col) \<Rightarrow> all_used (grid s) \<or> unused_neighbours (grid s) row col = [])"

section \<open>Example data\<close>

text \<open>
  A source of random numbers for the examples: the draws are 3/9, 4/9, ..., 8/9, 0, 1/9
  and so on, which makes the rows 4 5 6 7, 8 9 1 2, 3 4 5 6 and 7 8 9 1.
\<close>

definition example_random :: "nat \<Rightarrow> number" where
  "example_random k = of_nat ((k + 3) mod 9) / 9"

text \<open>The state after a tap on the 5 of the first row.\<close>

definition example_first :: GameState where
  "example_first =
    \<lparr>grid = mark_used (generateInitialGrid example_random) 0 1,
     currentValue = Some 5, selectedCell = Some (0, 1), score = 0, moves = 1,
     gameOver = False\<rparr>"

text \<open>
  Then a tap on the 8 below and to the left of it divides: 5 / 8 is 0.625, and a tie
  rounds up.
\<close>

definition example_state :: GameState where
  "example_state =
    \<lparr>grid = mark_used (mark_used (generateInitialGrid example_random) 0 1) 1 0,
     currentValue = Some (fl (63 / 100)), selectedCell = Some (1, 0), score = fl (63 / 100),
     moves = 2, gameOver = False\<rparr>"

text \<open>
  Two more taps, on the 9 to the right and then on the 4 in the corner, end the game:
  the three neighbours of the corner are used.
\<close>

definition example_terminal :: GameState where
  "example_terminal =
    \<lparr>grid = mark_used (mark_used (mark_used (mark_used
              (generateInitialGrid example_random) 0 1) 1 0) 1 1) 0 0,
     currentValue = Some (fl (241 / 100)), selectedCell = Some (0, 0), score = fl (963 / 100),
     moves = 4, gameOver = True\<rparr>"

text \<open>
  A second source: the draws make the rows 8 5 3 5, 9 5 5 5, 5 6 5 5 and 5 5 5 5.
\<close>

definition example_random2 :: "nat \<Rightarrow> number" where
  "example_random2 k =
    (if k = 0 then 7 / 9 else if k = 2 then 2 / 9 else if k = 4 then 8 / 9
     else if k = 9 then 5 / 9 else 4 / 9)"

text \<open>
  On its grid, a tap on the 3 of the first row and a tap on the 5 below and to the left
  of it: 3 / 5 gives the double nearest to 0.6, which is less than 0.6.
\<close>

definition example_tie :: GameState where
  "example_tie =
    \<lparr>grid = mark_used (mark_used (generateInitialGrid example_random2) 0 2) 1 1,
     currentValue = Some (fl (60 / 100)), selectedCell = Some (1, 1), score = fl (60 / 100),
     moves = 2, gameOver = False\<rparr>"





section \<open>Properties of the direction resolver\<close>

lemma getDirection_diffs:
  "getDirection fr fc tr tc =
    (if \<bar>tr - fr\<bar> > 1 \<or> \<bar>tc - fc\<bar> > 1 then None
     else if tr - fr = 0 \<and> tc - fc = 0 then None
     else if tr - fr = 0 \<and> tc - fc = 1 then Some Add
     else if tr - fr = -1 \<and> tc - fc = 0 then Some Add
     else if tr - fr = 0 \<and> tc - fc = -1 then Some Subtract
     else if tr - fr = 1 \<and> tc - fc = 0 then Some Subtract
     else if tr - fr = -1 \<and> tc - fc = 1 then Some Multiply
     else if tr - fr = 1 \<and> tc - fc = 1 then Some Multiply
     else if tr - fr = -1 \<and> tc - fc = -1 then Some Divide
     else if tr - fr = 1 \<and> tc - fc = -1 then Some Divide
     else None)"
  by (simp only: getDirection_def Let_def)

lemma getDirection_far:
  assumes "chebyshev fr fc tr tc \<noteq> 1"
  shows "getDirection fr fc tr tc = None"
proof (cases "\<bar>tr - fr\<bar> > 1 \<or> \<bar>tc - fc\<bar> > 1")
  case True
  then show ?thesis by (simp only: getDirection_diffs if_True)
next
  case False
  have m: "max \<bar>tr - fr\<bar> \<bar>tc - fc\<bar> \<noteq> 1"
    using assms by (simp add: chebyshev_def)
  from False have "tr - fr = -1 \<or> tr - fr = 0 \<or> tr - fr = 1"
    and "tc - fc = -1 \<or> tc - fc = 0 \<or> tc - fc = 1"
    by linarith+
  then show ?thesis using m
    by (elim disjE) (simp_all add: getDirection_diffs)
qed

lemma getDirection_near:
  assumes "chebyshev fr fc tr tc = 1"
  shows "getDirection fr fc tr tc \<noteq> None"
proof -
  have m: "max \<bar>tr - fr\<bar> \<bar>tc - fc\<bar> = 1"
    using assms by (simp add: chebyshev_def)
  then have "tr - fr = -1 \<or> tr - fr = 0 \<or> tr - fr = 1"
    and "tc - fc = -1 \<or> tc - fc = 0 \<or> tc - fc = 1"
    by linarith+
  then show ?thesis using m
    by (elim disjE) (simp_all add: getDirection_diffs)
qed

lemma getDirection_eight:
  "getDirection fr fc fr fc = None"
  "getDirection fr fc fr (fc + 1) = Some Add"
  "getDirection fr fc (fr - 1) fc = Some Add"
  "getDirection fr fc fr (fc - 1) = Some Subtract"
  "getDirection fr fc (fr + 1) fc = Some Subtract"
  "getDirection fr fc (fr - 1) (fc + 1) = Some Multiply"
  "getDirection fr fc (fr + 1) (fc + 1) = Some Multiply"
  "getDirection fr fc (fr - 1) (fc - 1) = Some Divide"
  "getDirection fr fc (fr + 1) (fc - 1) = Some Divide"
  by (simp_all add: getDirection_def Let_def)

text \<open>
  Claim C1. The direction resolver is a total function of the two coordinates. When the
  target is not one of the 8 neighbours of the source (Chebyshev distance different from
  1, which covers equal coordinates) it returns None. Otherwise it returns Add for the
  right and the up neighbour, Subtract for the left and the down neighbour, Multiply for
  the up-right and down-right neighbours and Divide for the up-left and down-left
  neighbours, where up is the smaller row index and right the larger column index.
\<close>

theorem getDirection_spec:
  "(chebyshev fr fc tr tc \<noteq> 1 \<longrightarrow> getDirection fr fc tr tc = None) \<and>
   (chebyshev fr fc tr tc = 1 \<longrightarrow> getDirection fr fc tr tc \<noteq> None) \<and>
   getDirection fr fc fr fc = None \<and>
   getDirection fr fc fr (fc + 1) = Some Add \<and>
   getDirection fr fc (fr - 1) fc = Some Add \<and>
   getDirection fr fc fr (fc - 1) = Some Subtract \<and>
   getDirection fr fc (fr + 1) fc = Some Subtract \<and>
   getDirection fr fc (fr - 1) (fc + 1) = Some Multiply \<and>
   getDirection fr fc (fr + 1) (fc + 1) = Some Multiply \<and>
   getDirection fr fc (fr - 1) (fc - 1) = Some Divide \<and>
   getDirection fr fc (fr + 1) (fc - 1) = Some Divide"
  using getDirection_far [of fr fc tr tc] getDirection_near [of fr fc tr tc]
  by (simp add: getDirection_eight)

theorem getDirection_spec_witness:
  "chebyshev 1 1 3 2 \<noteq> 1 \<and> getDirection 1 1 3 2 = None \<and>
   getDirection 1 1 1 2 = Some Add \<and> getDirection 1 1 0 0 = Some Divide \<and>
   chebyshev 1 1 0 2 = 1 \<and> getDirection 1 1 0 2 \<noteq> None"
  using getDirection_spec [of 1 1 3 2] getDirection_spec [of 1 1 0 2]
  by (simp add: chebyshev_def)

section \<open>Reading and updating the grid\<close>

lemma grid_cell_Inr:
  assumes "grid_cell g row col = Inr cell"
  shows "0 \<le> row \<and> nat row < length g \<and> 0 \<le> col \<and> nat col < length (g ! nat row) \<and>
         cell = g ! nat row ! nat col"
  using assms
  by (auto simp: grid_cell_def array_get_def split: option.splits if_splits)

lemma wf_grid_row:
  assumes "wf_grid g" "0 \<le> row" "row < GRID_SIZE"
  shows "int (length (g ! nat row)) = GRID_SIZE"
proof -
  have "nat row < length g" using assms by (simp add: wf_grid_def nat_less_iff)
  then have "g ! nat row \<in> set g" by simp
  then show ?thesis using assms(1) by (simp add: wf_grid_def list_all_iff)
qed

lemma grid_cell_in_bounds:
  assumes "wf_grid g" "in_bounds row col"
  shows "grid_cell g row col = Inr (g ! nat row ! nat col)"
proof -
  have r: "0 \<le> row" "row < GRID_SIZE" "0 \<le> col" "col < GRID_SIZE"
    using assms(2) by (simp_all add: in_bounds_def)
  have "int (length g) = GRID_SIZE" using assms(1) by (simp add: wf_grid_def)
  moreover have "int (length (g ! nat row)) = GRID_SIZE"
    using wf_grid_row [OF assms(1) r(1) r(2)] .
  ultimately show ?thesis using r by (simp add: grid_cell_def array_get_def)
qed

lemma grid_cell_out_of_bounds:
  assumes "wf_grid g" "\<not> in_bounds row col"
  shows "grid_cell g row col = Inl TypeError"
proof (cases "0 \<le> row \<and> row < GRID_SIZE")
  case False
  then show ?thesis using assms(1) by (auto simp: grid_cell_def array_get_def wf_grid_def)
next
  case True
  then have c: "\<not> (0 \<le> col \<and> col < GRID_SIZE)" using assms(2) by (simp add: in_bounds_def)
  have "int (length (g ! nat row)) = GRID_SIZE"
    using wf_grid_row [OF assms(1)] True by simp
  moreover have "int (length g) = GRID_SIZE" using assms(1) by (simp add: wf_grid_def)
  ultimately show ?thesis using True c by (auto simp: grid_cell_def array_get_def)
qed

lemma mark_used_eq:
  "mark_used g row col = g[nat row := (g ! nat row)[nat col := (g ! nat row ! nat col)\<lparr>used := True\<rparr>]]"
  by (simp add: mark_used_def)

lemma wf_grid_mark_used:
  assumes "wf_grid g"
  shows "wf_grid (mark_used g row col)"
proof -
  have "\<forall>r \<in> set g. int (length r) = GRID_SIZE"
    using assms by (simp add: wf_grid_def list_all_iff)
  then have "\<forall>r \<in> set (mark_used g row col). int (length r) = GRID_SIZE"
    unfolding mark_used_eq
    by (metis (no_types, lifting) insert_iff length_list_update nth_mem
        set_update_subset_insert subsetD linorder_not_less list_update_beyond)
  then show ?thesis using assms by (simp add: wf_grid_def list_all_iff mark_used_eq)
qed

lemma length_filter_update:
  assumes "i < length xs" "\<not> P (xs ! i)" "P y"
  shows "length (filter P (xs[i := y])) = Suc (length (filter P xs))"
proof -
  have xs: "xs = take i xs @ xs ! i # drop (Suc i) xs"
    using assms(1) by (simp add: id_take_nth_drop)
  have "xs[i := y] = take i xs @ y # drop (Suc i) xs"
    using assms(1) by (simp add: upd_conv_take_nth_drop)
  then have "length (filter P (xs[i := y])) =
      length (filter P (take i xs)) + 1 + length (filter P (drop (Suc i) xs))"
    using assms(3) by simp
  moreover have "length (filter P xs) =
      length (filter P (take i xs)) + length (filter P (drop (Suc i) xs))"
    using assms(2) by (subst xs) simp
  ultimately show ?thesis by simp
qed

lemma count_used_sum: "count_used g = sum_list (map (\<lambda>r. length (filter used r)) g)"
  by (induction g) (simp_all add: count_used_def)

lemma sum_list_update_Suc:
  fixes xs :: "nat list"
  assumes "i < length xs"
  shows "sum_list (xs[i := Suc (xs ! i)]) = Suc (sum_list xs)"
  using assms
proof (induction xs arbitrary: i)
  case Nil
  then show ?case by simp
next
  case (Cons x xs)
  then show ?case by (cases i) simp_all
qed

lemma count_used_mark_used:
  assumes "nat row < length g" "nat col < length (g ! nat row)"
    "\<not> used (g ! nat row ! nat col)"
  shows "count_used (mark_used g row col) = Suc (count_used g)"
proof -
  let ?f = "\<lambda>r. length (filter used r)"
  let ?row' = "(g ! nat row)[nat col := (g ! nat row ! nat col)\<lparr>used := True\<rparr>]"
  have "?f ?row' = Suc (?f (g ! nat row))"
    using assms(2,3) by (intro length_filter_update) simp_all
  then have "map ?f (mark_used g row col) = (map ?f g)[nat row := Suc (map ?f g ! nat row)]"
    using assms(1) by (simp add: mark_used_eq map_update)
  then show ?thesis
    using assms(1) sum_list_update_Suc [of "nat row" "map ?f g"]
    by (simp add: count_used_sum)
qed

lemma mark_used_target:
  assumes "nat row < length g" "nat col < length (g ! nat row)"
  shows "used (mark_used g row col ! nat row ! nat col)"
  using assms by (simp add: mark_used_eq)

section \<open>Unrolling the loops of the generator\<close>


lemma inner_loop_row:
  "inner_loop random i 0 [] idc =
    ([new_cell random i 0 idc, new_cell random i 1 (idc + 1),
      new_cell random i 2 (idc + 2), new_cell random i 3 (idc + 3)], idc + 4)"
  by (simp add: inner_loop.simps GRID_SIZE_def eval_nat_numeral)

lemma generateInitialGrid_cells:
  "generateInitialGrid random =
    [[new_cell random 0 0 0, new_cell random 0 1 1, new_cell random 0 2 2, new_cell random 0 3 3],
     [new_cell random 1 0 4, new_cell random 1 1 5, new_cell random 1 2 6, new_cell random 1 3 7],
     [new_cell random 2 0 8, new_cell random 2 1 9, new_cell random 2 2 10, new_cell random 2 3 11],
     [new_cell random 3 0 12, new_cell random 3 1 13, new_cell random 3 2 14, new_cell random 3 3 15]]"
  by (simp add: generateInitialGrid_def outer_loop.simps inner_loop_row GRID_SIZE_def)
    (simp add: eval_nat_numeral)

lemma new_cell_value:
  assumes "0 \<le> random k" "random k < 1"
  shows "\<exists>n::int. cell_value (new_cell random i j k) = of_int n \<and> 1 \<le> n \<and> n \<le> 9"
proof -
  have "0 \<le> random k * 9" "random k * 9 < 9" using assms by simp_all
  then have "0 \<le> \<lfloor>random k * 9\<rfloor>" "\<lfloor>random k * 9\<rfloor> < 9"
    by (simp_all add: floor_less_iff)
  then show ?thesis
    by (intro exI [of _ "\<lfloor>random k * 9\<rfloor> + 1"]) (simp add: new_cell_def Math_floor_def)
qed

lemma wf_generateInitialGrid: "wf_grid (generateInitialGrid random)"
  by (simp add: generateInitialGrid_cells wf_grid_def GRID_SIZE_def)

lemma count_used_generateInitialGrid: "count_used (generateInitialGrid random) = 0"
  by (simp add: generateInitialGrid_cells count_used_def new_cell_def)


section \<open>Properties of the grid generator\<close>

lemma valid_example_random: "valid_random example_random"
  by (simp add: valid_random_def example_random_def)



section \<open>The cell-press handler\<close>

lemma example_first_played: "play (initialState example_random) [(0, 1)] = Inr example_first"
  by code_simp

lemma example_state_played:
  "play (initialState example_random) [(0, 1), (1, 0)] = Inr example_state"
  by code_simp

lemma example_terminal_played:
  "play (initialState example_random) [(0, 1), (1, 0), (1, 1), (0, 0)] = Inr example_terminal"
  by code_simp


lemma handleCellPress_error:
  assumes "grid_cell (grid s) row col = Inl e"
  shows "handleCellPress s row col = Inl e"
  using assms by (simp add: handleCellPress_def)

lemma handleCellPress_blocked:
  assumes "grid_cell (grid s) row col = Inr cell" "used cell \<or> gameOver s"
  shows "handleCellPress s row col = Inr s"
  using assms by (auto simp: handleCellPress_def)

lemma handleCellPress_first:
  assumes "grid_cell (grid s) row col = Inr cell" "\<not> used cell" "\<not> gameOver s"
    "currentValue s = None"
  shows "handleCellPress s row col = Inr (first_selection s row col cell)"
  using assms by (simp add: handleCellPress_def first_selection_def)

lemma handleCellPress_not_adjacent:
  assumes "grid_cell (grid s) row col = Inr cell"
    "currentValue s = Some cv" "selectedCell s = Some (selRow, selCol)"
    "getDirection selRow selCol row col = None"
  shows "handleCellPress s row col = Inr s"
  using assms by (simp add: handleCellPress_def)

lemma handleCellPress_move:
  assumes "grid_cell (grid s) row col = Inr cell" "\<not> used cell" "\<not> gameOver s"
    "currentValue s = Some cv" "selectedCell s = Some (selRow, selCol)"
    "getDirection selRow selCol row col = Some operation"
  shows "handleCellPress s row col =
    Inr (applied_move s row col (compute_result operation cv (cell_value cell)))"
  using assms
  by (simp add: handleCellPress_def performOperation_def applied_move_def Let_def)

lemma handleCellPress_cases:
  assumes "handleCellPress s row col = Inr s'"
  obtains (unchanged) "s' = s"
  | (first) cell where "grid_cell (grid s) row col = Inr cell" "\<not> used cell"
      "\<not> gameOver s" "currentValue s = None" "s' = first_selection s row col cell"
  | (move) cell cv selRow selCol operation where
      "grid_cell (grid s) row col = Inr cell" "\<not> used cell" "\<not> gameOver s"
      "currentValue s = Some cv" "selectedCell s = Some (selRow, selCol)"
      "getDirection selRow selCol row col = Some operation"
      "s' = applied_move s row col (compute_result operation cv (cell_value cell))"
proof (cases "grid_cell (grid s) row col")
  case (Inl e)
  then show ?thesis using assms by (simp add: handleCellPress_error)
next
  case (Inr cell)
  show ?thesis
  proof (cases "used cell \<or> gameOver s")
    case True
    then show ?thesis using assms Inr unchanged by (simp add: handleCellPress_blocked)
  next
    case False
    then have nb: "\<not> used cell" "\<not> gameOver s" by simp_all
    show ?thesis
    proof (cases "currentValue s")
      case None
      then show ?thesis using assms handleCellPress_first [OF Inr nb None] first [OF Inr nb None]
        by simp
    next
      case (Some cv)
      show ?thesis
      proof (cases "selectedCell s")
        case None
        then show ?thesis using assms Inr nb Some by (simp add: handleCellPress_def)
      next
        case sel: (Some p)
        obtain selRow selCol where p: "p = (selRow, selCol)" by (cases p)
        show ?thesis
        proof (cases "getDirection selRow selCol row col")
          case None
          then show ?thesis
            using assms handleCellPress_not_adjacent [OF Inr Some] sel p unchanged by simp
        next
          case op: (Some operation)
          have "selectedCell s = Some (selRow, selCol)" using sel p by simp
          then show ?thesis
            using assms handleCellPress_move [OF Inr nb Some _ op] move [OF Inr nb Some _ op]
            by simp
        qed
      qed
    qed
  qed
qed

text \<open>
  Claim C2. In a state with an active selection, a tap on a coordinate of the grid leaves
  the whole state as it is, and raises nothing, when the direction resolver returns None
  for the selected cell and the target, or the target cell is used, or the game is over.
  This holds of the handler and of the tap as a whole (no effect runs after it).
\<close>

theorem attemptMove_rejected:
  assumes "wf_grid (grid s)" "in_bounds row col"
    and "currentValue s = Some cv" "selectedCell s = Some (selRow, selCol)"
    and "getDirection selRow selCol row col = None \<or> used (grid s ! nat row ! nat col) \<or>
         gameOver s"
  shows "handleCellPress s row col = Inr s \<and> onCellTapped s row col = Inr s"
proof -
  have c: "grid_cell (grid s) row col = Inr (grid s ! nat row ! nat col)"
    using assms(1,2) by (rule grid_cell_in_bounds)
  have "handleCellPress s row col = Inr s"
  proof (cases "used (grid s ! nat row ! nat col) \<or> gameOver s")
    case True
    then show ?thesis using c by (rule handleCellPress_blocked [rotated])
  next
    case False
    then have "getDirection selRow selCol row col = None" using assms(5) by blast
    then show ?thesis using handleCellPress_not_adjacent [OF c assms(3,4)] by simp
  qed
  then show ?thesis by (simp add: onCellTapped_def)
qed

theorem attemptMove_rejected_witness:
  "wf_grid (grid example_state) \<and> in_bounds 3 3 \<and>
   currentValue example_state = Some (fl (63 / 100)) \<and>
   selectedCell example_state = Some (1, 0) \<and>
   getDirection 1 0 3 3 = None \<and>
   handleCellPress example_state 3 3 = Inr example_state \<and>
   onCellTapped example_state 3 3 = Inr example_state"
  using attemptMove_rejected [of example_state 3 3 "fl (63 / 100)" 1 0]
  by (simp add: example_state_def wf_grid_mark_used wf_generateInitialGrid in_bounds_def
      GRID_SIZE_def getDirection_def)

text \<open>
  The handler itself has no bounds check: called with a coordinate outside the grid it
  throws at the read of \<^verbatim>\<open>grid[row][col]\<close> or of \<^verbatim>\<open>cell.used\<close>, before any
  state is set.
\<close>

lemma handleCellPress_unguarded:
  assumes "wf_grid (grid s)" "\<not> in_bounds row col"
  shows "handleCellPress s row col = Inl TypeError \<and> onCellTapped s row col = Inl TypeError"
  using grid_cell_out_of_bounds [OF assms]
  by (simp add: handleCellPress_error onCellTapped_def)

section \<open>The terminal detector and the specification's contract\<close>

lemma scan_neighbours_wf:
  assumes "wf_grid g"
  shows "scan_neighbours g row col cs =
    Inr (\<exists>(r, c) \<in> set cs. in_bounds r c \<and> \<not> used (g ! nat r ! nat c) \<and> \<not> (r = row \<and> c = col))"
proof (induction cs)
  case Nil
  then show ?case by simp
next
  case (Cons p cs)
  obtain r c where p: "p = (r, c)" by (cases p)
  show ?case
  proof (cases "in_bounds r c")
    case True
    then have "grid_cell g r c = Inr (g ! nat r ! nat c)"
      using assms by (simp add: grid_cell_in_bounds)
    then show ?thesis using True Cons p by (auto simp: in_bounds_def)
  next
    case False
    then show ?thesis using Cons p by (auto simp: in_bounds_def)
  qed
qed

lemma chebyshev_one:
  "chebyshev row col r c = 1 \<longleftrightarrow>
    (row - 1 \<le> r \<and> r \<le> row + 1 \<and> col - 1 \<le> c \<and> c \<le> col + 1 \<and> \<not> (r = row \<and> c = col))"
  unfolding chebyshev_def by linarith

lemma unused_neighbours_iff:
  "(r, c) \<in> set (unused_neighbours g row col) \<longleftrightarrow>
    in_bounds r c \<and> chebyshev row col r c = 1 \<and> \<not> used (g ! nat r ! nat c)"
  by (auto simp: unused_neighbours_def in_bounds_def)

lemma scan_neighbours_unused:
  assumes "wf_grid g"
  shows "scan_neighbours g row col (List.product [row - 1..row + 1] [col - 1..col + 1]) =
    Inr (unused_neighbours g row col \<noteq> [])"
proof -
  let ?cs = "List.product [row - 1..row + 1] [col - 1..col + 1]"
  let ?P = "\<lambda>(r, c). in_bounds r c \<and> \<not> used (g ! nat r ! nat c) \<and> \<not> (r = row \<and> c = col)"
  have "(\<exists>p \<in> set ?cs. ?P p) \<longleftrightarrow> unused_neighbours g row col \<noteq> []"
  proof
    assume "\<exists>p \<in> set ?cs. ?P p"
    then obtain r c where "(r, c) \<in> set ?cs" "?P (r, c)" by auto
    then have "(r, c) \<in> set (unused_neighbours g row col)"
      by (simp add: unused_neighbours_iff chebyshev_one)
    then show "unused_neighbours g row col \<noteq> []" by auto
  next
    assume "unused_neighbours g row col \<noteq> []"
    then obtain p where "p \<in> set (unused_neighbours g row col)"
      by (meson last_in_set)
    moreover obtain r c where "p = (r, c)" by (cases p)
    ultimately have "(r, c) \<in> set ?cs \<and> ?P (r, c)"
      by (simp add: unused_neighbours_iff chebyshev_one)
    then show "\<exists>p \<in> set ?cs. ?P p" by blast
  qed
  then show ?thesis using scan_neighbours_wf [OF assms, of row col ?cs] by simp
qed

lemma availableCells_all_used:
  "filter (\<lambda>c. \<not> used c) (concat g) = [] \<longleftrightarrow> all_used g"
  "length (filter (\<lambda>c. \<not> used c) (concat g)) = 0 \<longleftrightarrow> all_used g"
  by (auto simp: all_used_def list_all_iff filter_empty_conv)

lemma gameOverCheck_wf:
  assumes "wf_grid (grid s)" "(currentValue s = None) = (selectedCell s = None)"
  shows "gameOverCheck s = Inr (s\<lparr>gameOver := gameOver s \<or> isTerminal s\<rparr>)"
proof (cases "selectedCell s")
  case None
  then show ?thesis by (simp add: gameOverCheck_def isTerminal_def)
next
  case (Some p)
  obtain row col where p: "p = (row, col)" by (cases p)
  have cv: "currentValue s \<noteq> None" using assms(2) Some by simp
  show ?thesis
  proof (cases "gameOver s")
    case True
    then have "s\<lparr>gameOver := gameOver s \<or> isTerminal s\<rparr> = s" by simp
    then show ?thesis using Some p True by (simp add: gameOverCheck_def)
  next
    case False
    have t: "isTerminal s \<longleftrightarrow> all_used (grid s) \<or> unused_neighbours (grid s) row col = []"
      using Some p by (simp add: isTerminal_def)
    have g: "gameOverCheck s = (if isTerminal s then Inr (s\<lparr>gameOver := True\<rparr>) else Inr s)"
      using Some p cv False t scan_neighbours_unused [OF assms(1), of row col]
      by (auto simp: gameOverCheck_def Let_def availableCells_all_used)
    show ?thesis
    proof (cases "isTerminal s")
      case True
      then show ?thesis using g by simp
    next
      case nt: False
      then have "s\<lparr>gameOver := gameOver s \<or> isTerminal s\<rparr> = s" by simp
      then show ?thesis using g nt by simp
    qed
  qed
qed

text \<open>
  Claim C4. On a grid of 4 rows of 4 cells, in a state where the running value and the
  selected cell are null together, the game-over effect leaves every field but the flag
  as it is, and the flag is true afterwards exactly when it was true before or the state
  is terminal in the sense of the specification: a cell is selected, and all cells of the
  grid are used or no cell of the grid among the 8 neighbours of the selected cell is
  unused. With no selected cell it never sets the flag.
\<close>

theorem gameOverCheck_terminal:
  assumes "wf_grid (grid s)" "(currentValue s = None) = (selectedCell s = None)"
  shows "gameOverCheck s = Inr (s\<lparr>gameOver := gameOver s \<or> isTerminal s\<rparr>)"
  using assms by (rule gameOverCheck_wf)

theorem gameOverCheck_terminal_witness:
  "wf_grid (grid example_terminal) \<and> isTerminal (example_terminal\<lparr>gameOver := False\<rparr>) \<and>
   gameOverCheck (example_terminal\<lparr>gameOver := False\<rparr>) = Inr example_terminal \<and>
   \<not> isTerminal example_state \<and> gameOverCheck example_state = Inr example_state"
proof -
  have w: "wf_grid (grid (example_terminal\<lparr>gameOver := False\<rparr>))" "wf_grid (grid example_state)"
    by (simp_all add: example_terminal_def example_state_def wf_grid_mark_used
        wf_generateInitialGrid)
  have c: "(currentValue (example_terminal\<lparr>gameOver := False\<rparr>) = None) =
      (selectedCell (example_terminal\<lparr>gameOver := False\<rparr>) = None)"
    "(currentValue example_state = None) = (selectedCell example_state = None)"
    by (simp_all add: example_terminal_def example_state_def)
  have t: "isTerminal (example_terminal\<lparr>gameOver := False\<rparr>)" by code_simp
  have n: "\<not> isTerminal example_state" by code_simp
  show ?thesis
    using gameOverCheck_terminal [OF w(1) c(1)] gameOverCheck_terminal [OF w(2) c(2)] w t n
    by (simp add: example_terminal_def example_state_def)
qed

section \<open>What a tap changes\<close>

lemma gameOverCheck_Inr:
  assumes "gameOverCheck s = Inr s'"
  shows "s' = s \<or> s' = s\<lparr>gameOver := True\<rparr>"
  using assms
  by (auto simp: gameOverCheck_def Let_def split: option.splits prod.splits if_splits sum.splits)

lemma handleCellPress_changed:
  assumes "handleCellPress s row col = Inr s'" "s' \<noteq> s"
  shows "\<exists>cell. grid_cell (grid s) row col = Inr cell \<and> \<not> used cell \<and> \<not> gameOver s \<and>
      grid s' = mark_used (grid s) row col \<and> selectedCell s' = Some (row, col) \<and>
      moves s' = moves s + 1 \<and> currentValue s' \<noteq> None \<and> gameOver s' = gameOver s"
  using assms(1)
proof (cases rule: handleCellPress_cases)
  case unchanged
  then show ?thesis using assms(2) by simp
next
  case (first cell)
  then show ?thesis by (simp add: first_selection_def)
next
  case (move cell cv selRow selCol operation)
  then show ?thesis by (simp add: applied_move_def)
qed

lemma handleCellPress_score:
  assumes "handleCellPress s row col = Inr s'"
  shows "score s \<le> score s'"
  using assms
proof (cases rule: handleCellPress_cases)
  case unchanged
  then show ?thesis by simp
next
  case (first cell)
  then show ?thesis by (simp add: first_selection_def)
next
  case (move cell cv selRow selCol operation)
  then show ?thesis by (simp add: applied_move_def)
qed

lemma handleCellPress_score_update:
  assumes "handleCellPress s row col = Inr s'"
  shows "(currentValue s \<noteq> None \<and> s' \<noteq> s \<longrightarrow>
          (\<exists>result. currentValue s' = Some result \<and>
             score s' = (if result > score s then result else score s))) \<and>
         (currentValue s = None \<or> s' = s \<longrightarrow> score s' = score s)"
  using assms
proof (cases rule: handleCellPress_cases)
  case unchanged
  then show ?thesis by simp
next
  case (first cell)
  then show ?thesis by (simp add: first_selection_def)
next
  case (move cell cv selRow selCol operation)
  then show ?thesis by (simp add: applied_move_def)
qed

lemma onCellTapped_Inr:
  assumes "onCellTapped s row col = Inr s'"
  shows "s' = s \<or>
    (\<exists>s1. handleCellPress s row col = Inr s1 \<and> s1 \<noteq> s \<and>
       (s' = s1 \<or> s' = s1\<lparr>gameOver := True\<rparr>))"
proof (cases "handleCellPress s row col")
  case (Inl e)
  then show ?thesis using assms by (simp add: onCellTapped_def)
next
  case (Inr s1)
  show ?thesis
  proof (cases "s1 = s")
    case True
    then show ?thesis using assms Inr by (simp add: onCellTapped_def)
  next
    case False
    then have "gameOverCheck s1 = Inr s'" using assms Inr by (simp add: onCellTapped_def)
    then show ?thesis using gameOverCheck_Inr [of s1 s'] Inr False by blast
  qed
qed

lemma onCellTapped_fields:
  assumes "onCellTapped s row col = Inr s'"
  shows "s' = s \<or>
    (\<exists>s1. handleCellPress s row col = Inr s1 \<and> s1 \<noteq> s \<and>
       grid s' = grid s1 \<and> currentValue s' = currentValue s1 \<and>
       selectedCell s' = selectedCell s1 \<and> score s' = score s1 \<and> moves s' = moves s1)"
proof -
  from onCellTapped_Inr [OF assms] show ?thesis
  proof (elim disjE exE conjE)
    assume "s' = s"
    then show ?thesis by simp
  next
    fix s1
    assume "handleCellPress s row col = Inr s1" "s1 \<noteq> s" "s' = s1"
    then show ?thesis by simp
  next
    fix s1
    assume "handleCellPress s row col = Inr s1" "s1 \<noteq> s" "s' = s1\<lparr>gameOver := True\<rparr>"
    then show ?thesis by simp
  qed
qed

lemma onCellTapped_score:
  assumes "onCellTapped s row col = Inr s'"
  shows "score s \<le> score s'"
  using onCellTapped_fields [OF assms] handleCellPress_score [of s row col] by auto

lemma play_score:
  "play s taps = Inr s' \<Longrightarrow> score s \<le> score s'"
proof (induction taps arbitrary: s)
  case Nil
  then show ?case by simp
next
  case (Cons p taps)
  obtain row col where p: "p = (row, col)" by (cases p)
  from Cons.prems p obtain s1 where
    s1: "onCellTapped s row col = Inr s1" "play s1 taps = Inr s'"
    by (auto split: sum.splits)
  have "score s \<le> score s1" using s1(1) by (rule onCellTapped_score)
  also have "score s1 \<le> score s'" using s1(2) by (rule Cons.IH)
  finally show ?case .
qed

text \<open>
  Claim C5. Over any sequence of taps (first selections and moves, without a reset) the
  score never decreases. A tap that applies a move sets the score to the new running
  value exactly when that value is greater than the stored score and leaves it otherwise;
  a first selection and a rejected tap leave the score as it is.
\<close>

theorem score_monotone:
  "(play s taps = Inr s' \<longrightarrow> score s \<le> score s') \<and>
   (onCellTapped s row col = Inr s1 \<longrightarrow>
      (currentValue s \<noteq> None \<and> s1 \<noteq> s \<longrightarrow>
         (\<exists>result. currentValue s1 = Some result \<and>
            score s1 = (if result > score s then result else score s))) \<and>
      (currentValue s = None \<or> s1 = s \<longrightarrow> score s1 = score s))"
proof (intro conjI impI)
  assume "play s taps = Inr s'"
  then show "score s \<le> score s'" by (rule play_score)
next
  assume t: "onCellTapped s row col = Inr s1" and c: "currentValue s \<noteq> None \<and> s1 \<noteq> s"
  from onCellTapped_fields [OF t] c obtain s2 where
    s2: "handleCellPress s row col = Inr s2" "s2 \<noteq> s"
      "currentValue s1 = currentValue s2" "score s1 = score s2"
    by blast
  from handleCellPress_score_update [OF s2(1)] c s2(2) obtain result where
    "currentValue s2 = Some result" "score s2 = (if result > score s then result else score s)"
    by blast
  then have "currentValue s1 = Some result \<and>
      score s1 = (if result > score s then result else score s)"
    by (simp only: s2(3,4) simp_thms)
  then show "\<exists>result. currentValue s1 = Some result \<and>
      score s1 = (if result > score s then result else score s)" ..
next
  assume t: "onCellTapped s row col = Inr s1" and c: "currentValue s = None \<or> s1 = s"
  show "score s1 = score s"
  proof (cases "s1 = s")
    case True
    then show ?thesis by simp
  next
    case False
    then have cv: "currentValue s = None" using c by simp
    from onCellTapped_fields [OF t] False obtain s2 where
      s2: "handleCellPress s row col = Inr s2" "score s1 = score s2"
      by blast
    from handleCellPress_score_update [OF s2(1)] cv have "score s2 = score s" by simp
    then show ?thesis using s2(2) by simp
  qed
qed

theorem score_monotone_witness:
  "play (initialState example_random) [(0, 1), (1, 0)] = Inr example_state \<and>
   score (initialState example_random) \<le> score example_state \<and>
   onCellTapped example_first 1 0 = Inr example_state \<and>
   currentValue example_first = Some 5 \<and> example_state \<noteq> example_first \<and>
   currentValue example_state = Some (fl (63 / 100)) \<and> score example_first = 0 \<and>
   score example_state = fl (63 / 100)"
proof -
  have p: "play (initialState example_random) [(0, 1), (1, 0)] = Inr example_state"
    by (rule example_state_played)
  have t: "onCellTapped example_first 1 0 = Inr example_state" by code_simp
  have d: "example_state \<noteq> example_first" by (simp add: example_state_def example_first_def)
  show ?thesis
    using score_monotone [of "initialState example_random" "[(0, 1), (1, 0)]" example_state]
      score_monotone [of example_first "[]" example_first 1 0 example_state] p t d
    by (simp add: example_state_def example_first_def)
qed

section \<open>Invariants of the reachable states\<close>

lemma grid_cell_on_grid:
  assumes "wf_grid g" "grid_cell g row col = Inr cell"
  shows "in_bounds row col"
proof (rule ccontr)
  assume "\<not> in_bounds row col"
  then have "grid_cell g row col = Inl TypeError"
    using assms(1) by (simp add: grid_cell_out_of_bounds)
  then show False using assms(2) by simp
qed

text \<open>
  The invariant: the grid has 4 rows of 4 cells; the running value and the selected cell
  are null together; the selected cell is a used cell of the grid; the move counter is
  the number of used cells.
\<close>

lemma invariant_initialState:
  "wf_grid (grid (initialState random)) \<and>
   (currentValue (initialState random) = None) = (selectedCell (initialState random) = None) \<and>
   selectedCell (initialState random) = None \<and>
   moves (initialState random) = count_used (grid (initialState random))"
  by (simp add: initialState_def wf_generateInitialGrid count_used_generateInitialGrid)

lemma invariant_resetGame:
  "wf_grid (grid (resetGame s random)) \<and>
   (currentValue (resetGame s random) = None) = (selectedCell (resetGame s random) = None) \<and>
   selectedCell (resetGame s random) = None \<and>
   moves (resetGame s random) = count_used (grid (resetGame s random))"
  by (simp add: resetGame_def wf_generateInitialGrid count_used_generateInitialGrid)

lemma handleCellPress_step:
  assumes "handleCellPress s row col = Inr s'" "s' \<noteq> s"
  shows "\<not> used (grid s ! nat row ! nat col) \<and> used (grid s' ! nat row ! nat col) \<and>
    selectedCell s' = Some (row, col) \<and> currentValue s' \<noteq> None \<and>
    moves s' = moves s + 1 \<and> count_used (grid s') = count_used (grid s) + 1 \<and>
    grid s' = mark_used (grid s) row col"
proof -
  from handleCellPress_changed [OF assms] obtain cell where
    c: "grid_cell (grid s) row col = Inr cell" "\<not> used cell"
      "grid s' = mark_used (grid s) row col" "selectedCell s' = Some (row, col)"
      "moves s' = moves s + 1" "currentValue s' \<noteq> None"
    by blast
  note i = grid_cell_Inr [OF c(1)]
  have "\<not> used (grid s ! nat row ! nat col)" using i c(2) by simp
  moreover have "used (grid s' ! nat row ! nat col)"
    using i c(3) by (simp add: mark_used_target)
  moreover have "count_used (grid s') = count_used (grid s) + 1"
    using i c(2,3) by (simp add: count_used_mark_used)
  ultimately show ?thesis using c by simp
qed

lemma handleCellPress_invariant:
  assumes "handleCellPress s row col = Inr s'"
    and "wf_grid (grid s)"
    and "(currentValue s = None) = (selectedCell s = None)"
    and "\<forall>r c. selectedCell s = Some (r, c) \<longrightarrow> in_bounds r c \<and> used (grid s ! nat r ! nat c)"
    and "moves s = count_used (grid s)"
  shows "wf_grid (grid s') \<and>
    (currentValue s' = None) = (selectedCell s' = None) \<and>
    (\<forall>r c. selectedCell s' = Some (r, c) \<longrightarrow> in_bounds r c \<and> used (grid s' ! nat r ! nat c)) \<and>
    moves s' = count_used (grid s')"
proof (cases "s' = s")
  case True
  then show ?thesis using assms by simp
next
  case False
  note st = handleCellPress_step [OF assms(1) False]
  from handleCellPress_changed [OF assms(1) False] obtain cell where
    "grid_cell (grid s) row col = Inr cell" by blast
  then have b: "in_bounds row col" using assms(2) by (rule grid_cell_on_grid [rotated])
  have "wf_grid (grid s')" using st assms(2) by (simp add: wf_grid_mark_used)
  moreover have "(currentValue s' = None) = (selectedCell s' = None)" using st by simp
  moreover have "\<forall>r c. selectedCell s' = Some (r, c) \<longrightarrow>
      in_bounds r c \<and> used (grid s' ! nat r ! nat c)"
  proof (intro allI impI)
    fix r c
    assume "selectedCell s' = Some (r, c)"
    then have "r = row" "c = col" using st by simp_all
    then show "in_bounds r c \<and> used (grid s' ! nat r ! nat c)" using st b by blast
  qed
  moreover have "moves s' = count_used (grid s')" using st assms(5) by linarith
  ultimately show ?thesis by blast
qed

lemma reachable_invariant:
  assumes "reachable s"
  shows "wf_grid (grid s) \<and>
    (currentValue s = None) = (selectedCell s = None) \<and>
    (\<forall>r c. selectedCell s = Some (r, c) \<longrightarrow> in_bounds r c \<and> used (grid s ! nat r ! nat c)) \<and>
    moves s = count_used (grid s)"
  using assms
proof (induction rule: reachable.induct)
  case (fresh random)
  then show ?case using invariant_initialState [of random] by simp
next
  case (tapped s row col s')
  from onCellTapped_fields [OF tapped.hyps(2)] show ?case
  proof (elim disjE exE conjE)
    assume "s' = s"
    then show ?thesis using tapped.IH by simp
  next
    fix s1
    assume h: "handleCellPress s row col = Inr s1"
      and f: "grid s' = grid s1" "currentValue s' = currentValue s1"
        "selectedCell s' = selectedCell s1" "moves s' = moves s1"
    have "wf_grid (grid s1) \<and>
      (currentValue s1 = None) = (selectedCell s1 = None) \<and>
      (\<forall>r c. selectedCell s1 = Some (r, c) \<longrightarrow> in_bounds r c \<and> used (grid s1 ! nat r ! nat c)) \<and>
      moves s1 = count_used (grid s1)"
      using handleCellPress_invariant [OF h] tapped.IH by blast
    then show ?thesis unfolding f .
  qed
next
  case (reset s random)
  then show ?case using invariant_resetGame [of s random] by simp
qed

lemma reachable_example_state: "reachable example_state"
proof -
  have "reachable (initialState example_random)"
    using valid_example_random by (rule reachable.fresh)
  moreover have "onCellTapped (initialState example_random) 0 1 = Inr example_first"
    by code_simp
  ultimately have "reachable example_first" by (rule reachable.tapped)
  moreover have "onCellTapped example_first 1 0 = Inr example_state" by code_simp
  ultimately show ?thesis by (rule reachable.tapped)
qed

text \<open>
  Claim C8. In every state reachable from a fresh or reset state by taps and resets, a
  selected cell is a cell of the grid that is used. A tap that changes the state, a first
  selection or a move, sets the selected cell to its target and marks that cell used in
  the same transition.
\<close>

theorem selectedCell_used:
  "(reachable s \<and> selectedCell s = Some (row, col) \<longrightarrow>
      in_bounds row col \<and> used (grid s ! nat row ! nat col)) \<and>
   (handleCellPress s r c = Inr s' \<and> s' \<noteq> s \<longrightarrow>
      selectedCell s' = Some (r, c) \<and> used (grid s' ! nat r ! nat c))"
  using reachable_invariant [of s] handleCellPress_step [of s r c s'] by blast

theorem selectedCell_used_witness:
  "reachable example_state \<and> selectedCell example_state = Some (1, 0) \<and>
   used (grid example_state ! nat 1 ! nat 0) \<and>
   handleCellPress example_first 1 0 = Inr example_state \<and> example_state \<noteq> example_first"
proof -
  have s: "selectedCell example_state = Some (1, 0)" by (simp add: example_state_def)
  have h: "handleCellPress example_first 1 0 = Inr example_state" by code_simp
  have d: "example_state \<noteq> example_first" by (simp add: example_state_def example_first_def)
  from selectedCell_used [of example_state 1 0] selectedCell_used [of example_first _ _ 1 0 example_state]
    reachable_example_state s h d
  show ?thesis by blast
qed

text \<open>
  Claim C10. In every state reachable from a fresh or reset state by taps and resets, the
  move counter is the number of used cells of the grid. A tap either leaves the state as
  it is (a rejected tap) or flips its target cell, and no other, from unused to used and
  adds one to the move counter (a first selection or a move).
\<close>

theorem moves_count_used:
  "(reachable s \<longrightarrow> moves s = count_used (grid s)) \<and>
   (handleCellPress s row col = Inr s' \<longrightarrow>
      s' = s \<or>
      (\<not> used (grid s ! nat row ! nat col) \<and> grid s' = mark_used (grid s) row col \<and>
       used (grid s' ! nat row ! nat col) \<and>
       count_used (grid s') = count_used (grid s) + 1 \<and> moves s' = moves s + 1))"
  using reachable_invariant [of s] handleCellPress_step [of s row col s'] by blast

theorem moves_count_used_witness:
  "reachable example_state \<and> moves example_state = 2 \<and>
   count_used (grid example_state) = 2 \<and>
   handleCellPress example_first 1 0 = Inr example_state \<and>
   moves example_first = 1 \<and> count_used (grid example_first) = 1"
proof -
  have m: "moves example_state = 2" "moves example_first = 1"
    by (simp_all add: example_state_def example_first_def)
  have h: "handleCellPress example_first 1 0 = Inr example_state" by code_simp
  have d: "example_state \<noteq> example_first" by (simp add: example_state_def example_first_def)
  from moves_count_used [of example_state] moves_count_used [of example_first 1 0 example_state]
    reachable_example_state m h d
  show ?thesis by auto
qed

section \<open>Taps on the grid never throw\<close>

lemma handleCellPress_total:
  assumes "wf_grid (grid s)" "in_bounds row col"
    and "(currentValue s = None) = (selectedCell s = None)"
  shows "\<exists>s'. handleCellPress s row col = Inr s'"
proof -
  let ?cell = "grid s ! nat row ! nat col"
  have c: "grid_cell (grid s) row col = Inr ?cell"
    using assms(1,2) by (rule grid_cell_in_bounds)
  show ?thesis
  proof (cases "used ?cell \<or> gameOver s")
    case True
    then show ?thesis using handleCellPress_blocked [OF c] by blast
  next
    case False
    then have nb: "\<not> used ?cell" "\<not> gameOver s" by simp_all
    show ?thesis
    proof (cases "currentValue s")
      case None
      then show ?thesis using handleCellPress_first [OF c nb] by blast
    next
      case (Some cv)
      then obtain selRow selCol where sel: "selectedCell s = Some (selRow, selCol)"
        using assms(3) by (cases "selectedCell s") auto
      show ?thesis
      proof (cases "getDirection selRow selCol row col")
        case None
        then show ?thesis using handleCellPress_not_adjacent [OF c Some sel] by blast
      next
        case op: (Some operation)
        then show ?thesis using handleCellPress_move [OF c nb Some sel] by blast
      qed
    qed
  qed
qed

lemma reachable_tap_total:
  assumes "reachable s" "in_bounds row col"
  shows "\<exists>s'. onCellTapped s row col = Inr s' \<and> reachable s'"
proof -
  note inv = reachable_invariant [OF assms(1)]
  have w: "wf_grid (grid s)" and c: "(currentValue s = None) = (selectedCell s = None)"
    using inv by simp_all
  from handleCellPress_total [OF w assms(2) c] obtain s1 where
    h: "handleCellPress s row col = Inr s1" ..
  have "wf_grid (grid s1) \<and> (currentValue s1 = None) = (selectedCell s1 = None)"
    using handleCellPress_invariant [OF h] inv by blast
  then have "gameOverCheck s1 = Inr (s1\<lparr>gameOver := gameOver s1 \<or> isTerminal s1\<rparr>)"
    by (simp add: gameOverCheck_wf)
  then have "\<exists>s'. onCellTapped s row col = Inr s'"
    using h by (simp add: onCellTapped_def)
  then obtain s' where "onCellTapped s row col = Inr s'" ..
  then show ?thesis using assms(1) reachable.tapped by blast
qed

section \<open>Properties of the rounding to doubles\<close>

lemma bitlen_powi:
  assumes "0 < p"
  shows "(2::rat) powi (bitlen p - 1) \<le> of_int p \<and> (of_int p :: rat) < 2 powi bitlen p"
proof -
  have b: "1 \<le> bitlen p"
    using assms bitlen_eq_zero_iff [of p] bitlen_nonneg [of p] by linarith
  from bitlen_bounds [OF assms]
  have lo: "2 ^ nat (bitlen p - 1) \<le> p" and hi: "p < 2 ^ nat (bitlen p)" by simp_all
  have "(of_int (2 ^ nat (bitlen p - 1)) :: rat) \<le> of_int p"
    using lo by (simp only: of_int_le_iff)
  then have 1: "(2::rat) ^ nat (bitlen p - 1) \<le> of_int p" by simp
  have "(of_int p :: rat) < of_int (2 ^ nat (bitlen p))"
    using hi by (simp only: of_int_less_iff)
  then have 2: "(of_int p :: rat) < 2 ^ nat (bitlen p)" by simp
  have "(2::rat) powi (bitlen p - 1) = 2 ^ nat (bitlen p - 1)"
    using b by (simp add: power_int_def)
  moreover have "(2::rat) powi bitlen p = 2 ^ nat (bitlen p)"
    using b by (simp add: power_int_def)
  ultimately show ?thesis using 1 2 by simp
qed

lemma exponent_bounds:
  assumes "0 < x"
  shows "2 powi exponent x \<le> x \<and> x < 2 powi (exponent x + 1)"
proof -
  obtain p q where pq: "quotient_of x = (p, q)" by (cases "quotient_of x")
  have q: "0 < q" using pq by (rule quotient_of_denom_pos)
  have x: "x = of_int p / of_int q" using pq by (rule quotient_of_div)
  have p: "0 < p"
  proof (rule ccontr)
    assume "\<not> 0 < p"
    then have "(of_int p :: rat) \<le> 0" by simp
    then have "of_int p / (of_int q :: rat) \<le> 0" using q by (simp add: divide_le_0_iff)
    then show False using assms x by simp
  qed
  let ?e = "bitlen p - bitlen q"
  note bp = bitlen_powi [OF p] and bq = bitlen_powi [OF q]
  have qpos: "(0::rat) < of_int q" using q by simp
  have "x < 2 powi bitlen p / of_int q"
    unfolding x using bp qpos by (simp add: divide_strict_right_mono)
  also have "\<dots> \<le> 2 powi bitlen p / 2 powi (bitlen q - 1)"
    using bq qpos by (intro divide_left_mono mult_pos_pos) simp_all
  also have "\<dots> = 2 powi (?e + 1)"
    using power_int_diff [of "2::rat" "bitlen p" "bitlen q - 1"] by (simp add: algebra_simps)
  finally have hi: "x < 2 powi (?e + 1)" .
  have "(2::rat) powi (?e - 1) = 2 powi (bitlen p - 1) / 2 powi bitlen q"
    using power_int_diff [of "2::rat" "bitlen p - 1" "bitlen q"] by (simp add: algebra_simps)
  also have "\<dots> < 2 powi (bitlen p - 1) / of_int q"
    using bq qpos by (intro divide_strict_left_mono mult_pos_pos) simp_all
  also have "\<dots> \<le> x"
    unfolding x using bp qpos by (simp add: divide_right_mono)
  finally have lo: "2 powi (?e - 1) < x" .
  show ?thesis
  proof (cases "2 powi ?e \<le> x")
    case True
    then have "exponent x = ?e" by (simp add: exponent_def pq)
    then show ?thesis using True hi by simp
  next
    case False
    then have "exponent x = ?e - 1" by (simp add: exponent_def pq)
    then show ?thesis using False lo by simp
  qed
qed

lemma exponent_unique:
  assumes "2 powi e \<le> x" "x < 2 powi (e + 1)"
  shows "exponent x = e"
proof -
  have x: "0 < x" using assms(1) zero_less_power_int [of "2::rat" e] by linarith
  note b = exponent_bounds [OF x]
  have "(2::rat) powi e < 2 powi (exponent x + 1)" using assms(1) b by linarith
  then have 1: "e < exponent x + 1"
    by (metis power_int_increasing linorder_not_less one_le_numeral)
  have "(2::rat) powi exponent x < 2 powi (e + 1)" using assms(2) b by linarith
  then have 2: "exponent x < e + 1"
    by (metis power_int_increasing linorder_not_less one_le_numeral)
  from 1 2 show ?thesis by linarith
qed

lemma round_half_even_error: "\<bar>of_int (round_half_even y) - y\<bar> \<le> 1 / 2"
proof -
  have "of_int \<lfloor>y\<rfloor> \<le> y" "y < of_int \<lfloor>y\<rfloor> + 1" by linarith+
  then show ?thesis by (auto simp: round_half_even_def Let_def)
qed

lemma round_half_even_of_int [simp]: "round_half_even (of_int m) = m"
  by (simp add: round_half_even_def)

lemma ulp_pos: "0 < ulp x"
  by (simp add: ulp_def)

lemma fl_error:
  "\<bar>fl x - x\<bar> \<le> ulp x / 2"
proof (cases "x = 0")
  case True
  then show ?thesis using ulp_pos [of x] by (simp add: fl_def)
next
  case False
  let ?u = "ulp x"
  have u: "0 < ?u" by (rule ulp_pos)
  have "fl x - x = (of_int (round_half_even (x / ?u)) - x / ?u) * ?u"
    using False u by (simp add: fl_def field_simps)
  then have "\<bar>fl x - x\<bar> = \<bar>of_int (round_half_even (x / ?u)) - x / ?u\<bar> * ?u"
    using u by (simp add: abs_mult)
  also have "\<dots> \<le> 1 / 2 * ?u"
    using round_half_even_error [of "x / ?u"] u by (intro mult_right_mono) simp_all
  finally show ?thesis by simp
qed

text \<open>In the normal range the error is at most \<open>2\<^sup>-\<^sup>5\<^sup>3\<close> times the magnitude.\<close>

lemma fl_relative_error:
  assumes "2 powi (- 1022) \<le> \<bar>x\<bar>"
  shows "\<bar>fl x - x\<bar> \<le> \<bar>x\<bar> / 2 ^ 53"
proof -
  have x: "0 < \<bar>x\<bar>" using assms zero_less_power_int [of "2::rat" "- 1022"] by linarith
  note b = exponent_bounds [OF x]
  have "(2::rat) powi (- 1022) < 2 powi (exponent \<bar>x\<bar> + 1)" using assms b by linarith
  then have "- 1022 < exponent \<bar>x\<bar> + 1"
    by (metis power_int_increasing linorder_not_less one_le_numeral)
  then have "- 1074 \<le> exponent \<bar>x\<bar> - 52" by linarith
  then have "ulp x = 2 powi (exponent \<bar>x\<bar> - 52)" by (simp only: ulp_def max_absorb1)
  also have "\<dots> = 2 powi exponent \<bar>x\<bar> / 2 ^ 52"
    using power_int_diff [of "2::rat" "exponent \<bar>x\<bar>" 52] by simp
  also have "\<dots> \<le> \<bar>x\<bar> / 2 ^ 52" using b by (simp add: divide_right_mono)
  finally have "ulp x / 2 \<le> \<bar>x\<bar> / 2 ^ 53" by simp
  then show ?thesis using fl_error [of x] by linarith
qed


text \<open>
  The product \<^verbatim>\<open>x * 100\<close> of a rounded \<open>x\<close>: two roundings, each with a relative
  error of at most \<open>2\<^sup>-\<^sup>5\<^sup>3\<close>.
\<close>

lemma fl_times_100:
  assumes "2 powi (- 1022) \<le> \<bar>a\<bar>"
  shows "\<bar>fl (fl a * 100) - a * 100\<bar> \<le> \<bar>a * 100\<bar> / 2 ^ 51"
proof -
  define t where "t = \<bar>a\<bar> * 100"
  define q where "q = t / 2 ^ 53"
  define x where "x = fl a"
  define y where "y = x * 100"
  define z where "z = fl y"
  have t: "0 < t" using assms zero_less_power_int [of "2::rat" "- 1022"] by (simp add: t_def)
  have q: "0 < q" "q \<le> t / 2" "4 * q = t / 2 ^ 51" "\<bar>a\<bar> \<le> t / 2"
    using t by (simp_all add: q_def t_def)
  have "\<bar>x - a\<bar> \<le> \<bar>a\<bar> / 2 ^ 53"
    unfolding x_def using assms by (rule fl_relative_error)
  then have "\<bar>x - a\<bar> * 100 \<le> q" by (simp add: q_def t_def)
  moreover have "y - a * 100 = (x - a) * 100" by (simp add: y_def algebra_simps)
  then have "\<bar>y - a * 100\<bar> = \<bar>x - a\<bar> * 100" by (simp only: abs_mult abs_numeral)
  ultimately have 2: "\<bar>y - a * 100\<bar> \<le> q" by simp
  have a100: "\<bar>a * 100\<bar> = t" by (simp add: t_def abs_mult)
  have ylo: "t / 2 \<le> \<bar>y\<bar>" using 2 a100 q by linarith
  have yhi: "\<bar>y\<bar> \<le> t + q" using 2 a100 by linarith
  have "2 powi (- 1022) \<le> \<bar>y\<bar>" using assms ylo q(4) by linarith
  then have 3: "\<bar>z - y\<bar> \<le> \<bar>y\<bar> / 2 ^ 53" unfolding z_def by (rule fl_relative_error)
  have "\<bar>y\<bar> / 2 ^ 53 \<le> (t + q) / 2 ^ 53"
    using yhi by (rule divide_right_mono) simp
  also have "\<dots> = q + q / 2 ^ 53" by (simp add: q_def add_divide_distrib)
  also have "\<dots> \<le> 2 * q" using q(1) by simp
  finally have 4: "\<bar>z - y\<bar> \<le> 2 * q" using 3 by linarith
  have "\<bar>z - a * 100\<bar> \<le> \<bar>z - y\<bar> + \<bar>y - a * 100\<bar>" by linarith
  then have "\<bar>z - a * 100\<bar> \<le> t / 2 ^ 51" using 2 4 q by linarith
  then show ?thesis by (simp only: z_def y_def x_def a100)
qed



section \<open>Taps outside the grid\<close>

lemma cellPressables_iff:
  "(r, c) \<in> set (cellPressables s) \<longleftrightarrow>
    \<not> gameOver s \<and> 0 \<le> r \<and> nat r < length (grid s) \<and>
    0 \<le> c \<and> nat c < length (grid s ! nat r)"
proof
  assume "(r, c) \<in> set (cellPressables s)"
  then obtain i row j cell where g: "\<not> gameOver s"
    and i: "(i, row) \<in> set (enumerate 0 (grid s))"
    and j: "(j, cell) \<in> set (enumerate 0 row)" and rc: "r = int i" "c = int j"
    by (auto simp: cellPressables_def split: if_splits)
  from i have "i < length (grid s)" "row = grid s ! i" by (simp_all add: in_set_enumerate_eq)
  moreover from j have "j < length row" by (simp add: in_set_enumerate_eq)
  ultimately show "\<not> gameOver s \<and> 0 \<le> r \<and> nat r < length (grid s) \<and>
      0 \<le> c \<and> nat c < length (grid s ! nat r)"
    using g rc by simp
next
  assume a: "\<not> gameOver s \<and> 0 \<le> r \<and> nat r < length (grid s) \<and>
      0 \<le> c \<and> nat c < length (grid s ! nat r)"
  let ?row = "grid s ! nat r"
  have i: "(nat r, ?row) \<in> set (enumerate 0 (grid s))"
    using a by (simp add: in_set_enumerate_eq)
  have j: "(nat c, ?row ! nat c) \<in> set (enumerate 0 ?row)"
    using a by (simp add: in_set_enumerate_eq)
  have "(int (nat r), int (nat c)) \<in> set (cellPressables s)"
    using a i j by (force simp: cellPressables_def)
  then show "(r, c) \<in> set (cellPressables s)" using a by simp
qed

lemma cellPressables_in_bounds:
  assumes "wf_grid (grid s)" "(r, c) \<in> set (cellPressables s)"
  shows "in_bounds r c"
proof -
  from assms(2) have rc: "0 \<le> r" "nat r < length (grid s)" "0 \<le> c"
    "nat c < length (grid s ! nat r)"
    by (simp_all add: cellPressables_iff)
  have l: "int (length (grid s)) = GRID_SIZE" using assms(1) by (simp add: wf_grid_def)
  then have r: "r < GRID_SIZE" using rc(1,2) by linarith
  have "int (length (grid s ! nat r)) = GRID_SIZE"
    using wf_grid_row [OF assms(1) rc(1) r] .
  then have "c < GRID_SIZE" using rc(3,4) by linarith
  then show ?thesis using rc r by (simp add: in_bounds_def)
qed

lemma cellPressables_read:
  assumes "(r, c) \<in> set (cellPressables s)"
  shows "grid_cell (grid s) r c = Inr (grid s ! nat r ! nat c)"
proof -
  from assms have "0 \<le> r" "nat r < length (grid s)" "0 \<le> c"
    "nat c < length (grid s ! nat r)"
    by (simp_all add: cellPressables_iff)
  then show ?thesis by (simp add: grid_cell_def array_get_def nat_less_iff)
qed

lemma tapAt_total:
  assumes "reachable s"
  shows "\<exists>s'. tapAt s row col = Inr s' \<and> reachable s'"
proof (cases "(row, col) \<in> set (cellPressables s)")
  case True
  have "wf_grid (grid s)" using reachable_invariant [OF assms] by simp
  then have "in_bounds row col" using True by (rule cellPressables_in_bounds)
  then show ?thesis using reachable_tap_total [OF assms] True by (simp add: tapAt_def)
next
  case False
  then show ?thesis using assms by (simp add: tapAt_def)
qed

text \<open>
  Claim C3. A coordinate whose row or column lies outside the grid has no pressable, so
  a tap there calls nothing: the state is unchanged and no error is surfaced. The read
  that throws in the handler is not reached: the handler is only called with the
  coordinate of a pressable, and for each of these the read of \<^verbatim>\<open>grid[row][col]\<close>
  gives a cell.
\<close>

theorem out_of_bounds_tap_rejected:
  assumes "wf_grid (grid s)" "\<not> in_bounds row col"
  shows "(row, col) \<notin> set (cellPressables s) \<and> tapAt s row col = Inr s \<and>
    (\<forall>(r, c) \<in> set (cellPressables s). \<exists>cell. grid_cell (grid s) r c = Inr cell)"
proof -
  have n: "(row, col) \<notin> set (cellPressables s)"
    using assms cellPressables_in_bounds by blast
  then have "tapAt s row col = Inr s" by (simp add: tapAt_def)
  moreover have "\<forall>(r, c) \<in> set (cellPressables s). \<exists>cell. grid_cell (grid s) r c = Inr cell"
    using cellPressables_read by blast
  ultimately show ?thesis using n by blast
qed

theorem out_of_bounds_tap_rejected_witness:
  "wf_grid (grid example_state) \<and> \<not> in_bounds 4 0 \<and>
   (4, 0) \<notin> set (cellPressables example_state) \<and>
   tapAt example_state 4 0 = Inr example_state \<and>
   (1, 1) \<in> set (cellPressables example_state) \<and>
   (\<exists>cell. grid_cell (grid example_state) 1 1 = Inr cell)"
proof -
  have w: "wf_grid (grid example_state)"
    by (simp add: example_state_def wf_grid_mark_used wf_generateInitialGrid)
  have b: "\<not> in_bounds 4 0" by (simp add: in_bounds_def GRID_SIZE_def)
  have p: "(1, 1) \<in> set (cellPressables example_state)" by code_simp
  from out_of_bounds_tap_rejected [OF w b] w b p show ?thesis by blast
qed

section \<open>Division and rounding\<close>

lemma Math_round_nearest:
  "x - 1 / 2 < Math_round x \<and> Math_round x \<le> x + 1 / 2"
proof -
  have "of_int \<lfloor>x + 1 / 2\<rfloor> \<le> x + 1 / 2" by (rule of_int_floor_le)
  moreover have "x + 1 / 2 < of_int \<lfloor>x + 1 / 2\<rfloor> + 1" by linarith
  ultimately show ?thesis by (simp add: Math_round_def)
qed

lemma divide_move:
  assumes "wf_grid (grid s)" "in_bounds row col" "\<not> gameOver s"
    "\<not> used (grid s ! nat row ! nat col)"
    and "currentValue s = Some cv" "selectedCell s = Some (selRow, selCol)"
    and "getDirection selRow selCol row col = Some Divide"
  shows "handleCellPress s row col =
    Inr (applied_move s row col
      (fl (Math_round (fl ((if cell_value (grid s ! nat row ! nat col) \<noteq> 0
             then fl (cv / cell_value (grid s ! nat row ! nat col)) else cv) * 100)) / 100)))"
proof -
  have c: "grid_cell (grid s) row col = Inr (grid s ! nat row ! nat col)"
    using assms(1,2) by (rule grid_cell_in_bounds)
  show ?thesis
    using handleCellPress_move [OF c assms(4,3,5,6,7)] by (simp add: compute_result_def)
qed

lemma example_tie_played:
  "play (initialState example_random2) [(0, 2), (1, 1)] = Inr example_tie"
  by code_simp

lemma valid_example_random2: "valid_random example_random2"
  by (simp add: valid_random_def example_random2_def)



text \<open>
  Claim C6, as the code has it. A Divide move is a tap on an unused cell of the grid for
  which the direction resolver returns Divide, in a game that is not over. After it the
  running value is the double nearest to \<open>n / 100\<close> for an integer \<open>n\<close>, so it is a
  number of two decimal places up to the last rounding. When the value \<open>v\<close> of the
  target is not zero, \<open>n\<close> is the nearest integer, a tie upwards, to the product
  \<^verbatim>\<open>(currentValue / targetValue) * 100\<close> as the doubles give it: the quotient is rounded
  to a double and so is the product. In the normal range that product is within
  \<open>2\<^sup>-\<^sup>5\<^sup>1\<close> of the exact \<open>cv / v * 100\<close>, relatively, so that \<open>n\<close> is the
  rounding of the exact value unless that lies next to a tie.
\<close>

theorem divide_rounds_double:
  assumes "wf_grid (grid s)" "in_bounds row col" "\<not> gameOver s"
    "\<not> used (grid s ! nat row ! nat col)"
    and "currentValue s = Some cv" "selectedCell s = Some (selRow, selCol)"
    and "getDirection selRow selCol row col = Some Divide"
    and "v = cell_value (grid s ! nat row ! nat col)"
  shows "\<exists>s' n. handleCellPress s row col = Inr s' \<and>
      currentValue s' = Some (fl (of_int n / 100)) \<and>
      \<bar>fl (of_int n / 100) - of_int n / 100\<bar> \<le> ulp (of_int n / 100) / 2 \<and>
      (v \<noteq> 0 \<longrightarrow>
         n = \<lfloor>fl (fl (cv / v) * 100) + 1 / 2\<rfloor> \<and>
         fl (fl (cv / v) * 100) - 1 / 2 < of_int n \<and>
         of_int n \<le> fl (fl (cv / v) * 100) + 1 / 2 \<and>
         (2 powi (- 1022) \<le> \<bar>cv / v\<bar> \<longrightarrow>
            \<bar>fl (fl (cv / v) * 100) - cv / v * 100\<bar> \<le> \<bar>cv / v * 100\<bar> / 2 ^ 51))"
proof -
  let ?x = "fl ((if v \<noteq> 0 then fl (cv / v) else cv) * 100)"
  let ?n = "\<lfloor>?x + 1 / 2\<rfloor>"
  let ?s' = "applied_move s row col (fl (Math_round ?x / 100))"
  have h: "handleCellPress s row col = Inr ?s'"
    using divide_move [OF assms(1-7)] assms(8) by simp
  have cv': "currentValue ?s' = Some (fl (of_int ?n / 100))"
    by (simp add: applied_move_def Math_round_def)
  have er: "\<bar>fl (of_int ?n / 100) - of_int ?n / 100\<bar> \<le> ulp (of_int ?n / 100) / 2"
    by (rule fl_error)
  have near: "v \<noteq> 0 \<longrightarrow>
      ?n = \<lfloor>fl (fl (cv / v) * 100) + 1 / 2\<rfloor> \<and>
      fl (fl (cv / v) * 100) - 1 / 2 < of_int ?n \<and>
      of_int ?n \<le> fl (fl (cv / v) * 100) + 1 / 2 \<and>
      (2 powi (- 1022) \<le> \<bar>cv / v\<bar> \<longrightarrow>
         \<bar>fl (fl (cv / v) * 100) - cv / v * 100\<bar> \<le> \<bar>cv / v * 100\<bar> / 2 ^ 51)"
  proof
    assume v: "v \<noteq> 0"
    have x: "?x = fl (fl (cv / v) * 100)" using v by simp
    have "?x - 1 / 2 < of_int ?n \<and> of_int ?n \<le> ?x + 1 / 2"
      using Math_round_nearest [of ?x] by (simp only: Math_round_def)
    then show "?n = \<lfloor>fl (fl (cv / v) * 100) + 1 / 2\<rfloor> \<and>
      fl (fl (cv / v) * 100) - 1 / 2 < of_int ?n \<and>
      of_int ?n \<le> fl (fl (cv / v) * 100) + 1 / 2 \<and>
      (2 powi (- 1022) \<le> \<bar>cv / v\<bar> \<longrightarrow>
         \<bar>fl (fl (cv / v) * 100) - cv / v * 100\<bar> \<le> \<bar>cv / v * 100\<bar> / 2 ^ 51)"
      using fl_times_100 [of "cv / v"] by (simp only: x) blast
  qed
  from h cv' er near show ?thesis by blast
qed

theorem divide_rounds_double_witness:
  "wf_grid (grid example_first) \<and> in_bounds 1 0 \<and> \<not> gameOver example_first \<and>
   \<not> used (grid example_first ! nat 1 ! nat 0) \<and>
   currentValue example_first = Some 5 \<and> selectedCell example_first = Some (0, 1) \<and>
   getDirection 0 1 1 0 = Some Divide \<and> cell_value (grid example_first ! nat 1 ! nat 0) = 8 \<and>
   \<lfloor>fl (fl (5 / 8) * 100) + 1 / 2\<rfloor> = 63 \<and>
   (\<exists>s'. handleCellPress example_first 1 0 = Inr s' \<and> currentValue s' = Some (fl (63 / 100)))"
proof -
  have w: "wf_grid (grid example_first)"
    by (simp add: example_first_def wf_grid_mark_used wf_generateInitialGrid)
  have b: "in_bounds 1 0" by (simp add: in_bounds_def GRID_SIZE_def)
  have g: "\<not> gameOver example_first" by (simp add: example_first_def)
  have u: "\<not> used (grid example_first ! nat 1 ! nat 0)" by code_simp
  have c: "currentValue example_first = Some 5" "selectedCell example_first = Some (0, 1)"
    by (simp_all add: example_first_def)
  have d: "getDirection 0 1 1 0 = Some Divide" by (simp add: getDirection_def)
  have v: "8 = cell_value (grid example_first ! nat 1 ! nat 0)" by code_simp
  have f: "\<lfloor>fl (fl (5 / 8) * 100) + 1 / 2\<rfloor> = 63" by code_simp
  from divide_rounds_double [OF w b g u c d v] obtain s' n where
    s': "handleCellPress example_first 1 0 = Inr s'" "currentValue s' = Some (fl (of_int n / 100))"
    "n = \<lfloor>fl (fl (5 / 8) * 100) + 1 / 2\<rfloor>"
    by auto
  have "currentValue s' = Some (fl (63 / 100))" using s'(2,3) f by simp
  then show ?thesis using w b g u c d v f s'(1) by auto
qed

text \<open>
  The counterexample to the claim as it was stated: in the state after the taps on the 3
  and the 5 the running value is the double of 0.6, and the tap on the 8 divides. The
  exact \<open>cv / 8 * 100\<close> is just below 7.5 and rounds to 7; the doubles give 7.5 and the
  new running value is 0.08.
\<close>

theorem divide_rounds_counterexample:
  "valid_random example_random2 \<and>
   play (initialState example_random2) [(0, 2), (1, 1)] = Inr example_tie \<and>
   currentValue example_tie = Some (fl (60 / 100)) \<and>
   selectedCell example_tie = Some (1, 1) \<and> getDirection 1 1 0 0 = Some Divide \<and>
   cell_value (grid example_tie ! nat 0 ! nat 0) = 8 \<and>
   handleCellPress example_tie 0 0 = Inr (applied_move example_tie 0 0 (fl (8 / 100))) \<and>
   currentValue (applied_move example_tie 0 0 (fl (8 / 100))) = Some (fl (8 / 100)) \<and>
   \<lfloor>fl (60 / 100) / 8 * 100 + 1 / 2\<rfloor> = 7 \<and>
   fl (8 / 100) \<noteq> of_int \<lfloor>fl (60 / 100) / 8 * 100 + 1 / 2\<rfloor> / 100 \<and>
   fl (8 / 100) \<noteq> fl (of_int \<lfloor>fl (60 / 100) / 8 * 100 + 1 / 2\<rfloor> / 100)"
proof -
  have 1: "currentValue example_tie = Some (fl (60 / 100))"
    "selectedCell example_tie = Some (1, 1)"
    by (simp_all add: example_tie_def)
  have 2: "getDirection 1 1 0 0 = Some Divide" by (simp add: getDirection_def)
  have 3: "cell_value (grid example_tie ! nat 0 ! nat 0) = 8" by code_simp
  have 4: "handleCellPress example_tie 0 0 = Inr (applied_move example_tie 0 0 (fl (8 / 100)))"
    by code_simp
  have 5: "currentValue (applied_move example_tie 0 0 (fl (8 / 100))) = Some (fl (8 / 100))"
    by (simp add: applied_move_def)
  have 6: "\<lfloor>fl (60 / 100) / 8 * 100 + 1 / 2\<rfloor> = 7" by code_simp
  have 7: "fl (8 / 100) \<noteq> of_int \<lfloor>fl (60 / 100) / 8 * 100 + 1 / 2\<rfloor> / 100" by code_simp
  have 8: "fl (8 / 100) \<noteq> fl (of_int \<lfloor>fl (60 / 100) / 8 * 100 + 1 / 2\<rfloor> / 100)" by code_simp
  from valid_example_random2 example_tie_played 1 2 3 4 5 6 7 8 show ?thesis by blast
qed




section \<open>No overflow in play\<close>

lemma round_half_even_bound:
  assumes "- of_int M \<le> y" "y \<le> of_int M"
  shows "- M \<le> round_half_even y \<and> round_half_even y \<le> M"
proof -
  have f: "of_int \<lfloor>y\<rfloor> \<le> y" "y < of_int \<lfloor>y\<rfloor> + 1" by linarith+
  have lo: "- M \<le> \<lfloor>y\<rfloor>" using assms(1) by linarith
  have hi: "\<lfloor>y\<rfloor> \<le> M" using assms(2) by linarith
  show ?thesis
  proof (cases "y = of_int \<lfloor>y\<rfloor>")
    case True
    then have "round_half_even y = \<lfloor>y\<rfloor>" by (simp add: round_half_even_def Let_def)
    then show ?thesis using lo hi by simp
  next
    case False
    then have "y < of_int M" using assms(2) f by (metis floor_of_int order_le_less)
    then have "\<lfloor>y\<rfloor> < M" by linarith
    moreover have "round_half_even y = \<lfloor>y\<rfloor> \<or> round_half_even y = \<lfloor>y\<rfloor> + 1"
      by (simp add: round_half_even_def Let_def)
    ultimately show ?thesis using lo by linarith
  qed
qed

lemma fl_bound:
  assumes "\<bar>x\<bar> \<le> 2 ^ n"
  shows "\<bar>fl x\<bar> \<le> 2 ^ n"
proof (cases "x = 0")
  case True
  then show ?thesis by (simp add: fl_def)
next
  case False
  define j where "j = max (exponent \<bar>x\<bar> - 52) (- 1074)"
  have x: "0 < \<bar>x\<bar>" using False by simp
  have u: "ulp x = 2 powi j" by (simp add: ulp_def j_def)
  have "(2::rat) powi exponent \<bar>x\<bar> \<le> 2 powi int n"
    using exponent_bounds [OF x] assms by simp
  then have "exponent \<bar>x\<bar> \<le> int n"
    by (metis power_int_strict_increasing linorder_not_less one_less_numeral_iff semiring_norm(76))
  then have j: "j \<le> int n" by (simp add: j_def)
  define M :: int where "M = 2 ^ nat (int n - j)"
  have "(2::rat) powi (int n - j) = 2 powi int n / 2 powi j"
    by (rule power_int_diff) simp
  moreover have "(2::rat) powi (int n - j) = of_int M"
    using j by (simp add: M_def power_int_def)
  ultimately have M: "of_int M * ulp x = (2::rat) ^ n" by (simp add: u)
  have up: "0 < ulp x" by (rule ulp_pos)
  have "\<bar>x / ulp x\<bar> \<le> of_int M"
  proof -
    have "\<bar>x / ulp x\<bar> = \<bar>x\<bar> / ulp x" using up by simp
    also have "\<dots> \<le> 2 ^ n / ulp x" using assms up by (simp add: divide_right_mono)
    also have "\<dots> = of_int M" using M up by (simp add: field_simps)
    finally show ?thesis .
  qed
  then have "- of_int M \<le> x / ulp x" "x / ulp x \<le> of_int M" by linarith+
  then have "- M \<le> round_half_even (x / ulp x) \<and> round_half_even (x / ulp x) \<le> M"
    by (rule round_half_even_bound)
  then have "\<bar>round_half_even (x / ulp x)\<bar> \<le> M" by linarith
  then have "\<bar>of_int (round_half_even (x / ulp x)) :: rat\<bar> \<le> of_int M"
    by (metis of_int_abs of_int_le_iff)
  then have "\<bar>of_int (round_half_even (x / ulp x))\<bar> * ulp x \<le> of_int M * ulp x"
    using up by (simp add: mult_right_mono)
  then show ?thesis using False up by (simp add: fl_def abs_mult M)
qed


lemma Math_round_bound:
  assumes "\<bar>z\<bar> \<le> 2 ^ n"
  shows "\<bar>Math_round z\<bar> \<le> 2 ^ n"
proof -
  define K :: int where "K = 2 ^ n"
  have K: "(of_int K :: rat) = 2 ^ n" by (simp add: K_def)
  have "- of_int K \<le> z" "z \<le> of_int K" using assms K by linarith+
  then have "- K \<le> \<lfloor>z + 1 / 2\<rfloor>" "\<lfloor>z + 1 / 2\<rfloor> \<le> K" by linarith+
  then have "\<bar>\<lfloor>z + 1 / 2\<rfloor>\<bar> \<le> K" by linarith
  then have "\<bar>of_int \<lfloor>z + 1 / 2\<rfloor> :: rat\<bar> \<le> of_int K"
    by (metis of_int_abs of_int_le_iff)
  then show ?thesis by (simp only: Math_round_def K)
qed

text \<open>
  One operation on a running value of magnitude up to \<open>2\<^sup>n\<close> and a cell value of
  magnitude up to 9: the quotient, the product with 100 and the result stay below
  \<open>2\<^sup>n\<^sup>+\<^sup>7\<close>.
\<close>

lemma divide_bound:
  assumes "\<bar>cv\<bar> \<le> 2 ^ n" "v = of_int m"
  shows "\<bar>if v \<noteq> 0 then fl (cv / v) else cv\<bar> \<le> 2 ^ n \<and>
    \<bar>fl ((if v \<noteq> 0 then fl (cv / v) else cv) * 100)\<bar> \<le> 2 ^ (n + 7) \<and>
    \<bar>compute_result Divide cv v\<bar> \<le> 2 ^ (n + 4)"
proof -
  define q where "q = (if v \<noteq> 0 then fl (cv / v) else cv)"
  define t :: rat where "t = 2 ^ n"
  have t: "1 \<le> t" by (simp add: t_def)
  have q: "\<bar>q\<bar> \<le> t"
  proof (cases "v = 0")
    case True
    then show ?thesis using assms(1) by (simp add: q_def t_def)
  next
    case False
    then have "m \<noteq> 0" using assms(2) by auto
    then have "1 \<le> \<bar>m\<bar>" by linarith
    then have "(of_int 1 :: rat) \<le> of_int \<bar>m\<bar>" by (simp only: of_int_le_iff)
    then have v1: "1 \<le> \<bar>v\<bar>" by (simp add: assms(2))
    have "\<bar>cv / v\<bar> = \<bar>cv\<bar> / \<bar>v\<bar>" by simp
    also have "\<dots> \<le> \<bar>cv\<bar> / 1" using v1 by (intro divide_left_mono) simp_all
    finally have "\<bar>cv / v\<bar> \<le> 2 ^ n" using assms(1) by simp
    then have "\<bar>fl (cv / v)\<bar> \<le> 2 ^ n" by (rule fl_bound)
    then show ?thesis using False by (simp add: q_def t_def)
  qed
  have "\<bar>q * 100\<bar> = \<bar>q\<bar> * 100" by (simp add: abs_mult)
  then have "\<bar>q * 100\<bar> \<le> t * 128" using q t by linarith
  then have "\<bar>q * 100\<bar> \<le> 2 ^ (n + 7)" by (simp add: t_def power_add)
  then have p: "\<bar>fl (q * 100)\<bar> \<le> 2 ^ (n + 7)" by (rule fl_bound)
  then have "\<bar>Math_round (fl (q * 100))\<bar> \<le> 2 ^ (n + 7)" by (rule Math_round_bound)
  then have "\<bar>Math_round (fl (q * 100))\<bar> \<le> t * 128" by (simp add: t_def power_add)
  moreover have "\<bar>Math_round (fl (q * 100)) / 100\<bar> = \<bar>Math_round (fl (q * 100))\<bar> / 100"
    by simp
  ultimately have "\<bar>Math_round (fl (q * 100)) / 100\<bar> \<le> t * 16" using t by linarith
  then have "\<bar>Math_round (fl (q * 100)) / 100\<bar> \<le> 2 ^ (n + 4)"
    by (simp add: t_def power_add)
  then have "\<bar>fl (Math_round (fl (q * 100)) / 100)\<bar> \<le> 2 ^ (n + 4)" by (rule fl_bound)
  then have "\<bar>compute_result Divide cv v\<bar> \<le> 2 ^ (n + 4)"
    by (simp add: compute_result_def q_def)
  then show ?thesis using q p by (simp add: q_def t_def)
qed

lemma compute_result_bound:
  assumes "\<bar>cv\<bar> \<le> 2 ^ n" "v = of_int m" "\<bar>m\<bar> \<le> 9"
  shows "\<bar>compute_result operation cv v\<bar> \<le> 2 ^ (n + 4)"
proof -
  define t :: rat where "t = 2 ^ n"
  have t: "1 \<le> t" "\<bar>cv\<bar> \<le> t" using assms(1) by (simp_all add: t_def)
  have "(of_int \<bar>m\<bar> :: rat) \<le> of_int 9" using assms(3) by (simp only: of_int_le_iff)
  then have v: "\<bar>v\<bar> \<le> 9" by (simp add: assms(2))
  have p: "(2::rat) ^ (n + 4) = t * 16" by (simp add: t_def power_add)
  show ?thesis
  proof (cases operation)
    case Add
    have "\<bar>cv + v\<bar> \<le> t * 16" using t v by linarith
    then have "\<bar>fl (cv + v)\<bar> \<le> 2 ^ (n + 4)" unfolding p [symmetric] by (rule fl_bound)
    then show ?thesis by (simp add: Add compute_result_def)
  next
    case Subtract
    have "\<bar>cv - v\<bar> \<le> t * 16" using t v by linarith
    then have "\<bar>fl (cv - v)\<bar> \<le> 2 ^ (n + 4)" unfolding p [symmetric] by (rule fl_bound)
    then show ?thesis by (simp add: Subtract compute_result_def)
  next
    case Multiply
    have "\<bar>cv * v\<bar> = \<bar>cv\<bar> * \<bar>v\<bar>" by (rule abs_mult)
    also have "\<dots> \<le> t * 9" using t v by (intro mult_mono) simp_all
    also have "\<dots> \<le> t * 16" using t by simp
    finally have "\<bar>fl (cv * v)\<bar> \<le> 2 ^ (n + 4)" unfolding p [symmetric] by (rule fl_bound)
    then show ?thesis by (simp add: Multiply compute_result_def)
  next
    case Divide
    then show ?thesis using divide_bound [OF assms(1,2)] by simp
  qed
qed

lemma mark_used_values:
  "map (map cell_value) (mark_used g row col) = map (map cell_value) g"
proof -
  let ?r = "g ! nat row"
  have "map cell_value (?r[nat col := (?r ! nat col)\<lparr>used := True\<rparr>]) = map cell_value ?r"
    by (cases "nat col < length ?r")
      (simp_all add: map_update list_update_same_conv list_update_beyond)
  then show ?thesis
    by (cases "nat row < length g")
      (simp_all add: mark_used_eq map_update list_update_same_conv list_update_beyond)
qed

lemma grid_cell_value:
  assumes "grid_cell g row col = Inr cell"
  shows "cell_value cell \<in> set (concat (map (map cell_value) g))"
proof -
  note i = grid_cell_Inr [OF assms]
  have "g ! nat row \<in> set g" using i by simp
  moreover have "cell \<in> set (g ! nat row)" using i by simp
  ultimately show ?thesis by auto
qed

lemma generateInitialGrid_values:
  assumes "valid_random random"
  shows "\<forall>v \<in> set (concat (map (map cell_value) (generateInitialGrid random))).
    \<exists>m::int. v = of_int m \<and> \<bar>m\<bar> \<le> 9"
proof -
  have "\<exists>m::int. cell_value (new_cell random i j k) = of_int m \<and> \<bar>m\<bar> \<le> 9" for i j k
  proof -
    from assms new_cell_value [of random k i j] obtain n :: int where
      "cell_value (new_cell random i j k) = of_int n" "1 \<le> n" "n \<le> 9"
      by (auto simp: valid_random_def)
    then show ?thesis by (intro exI [of _ n]) simp
  qed
  then show ?thesis by (simp add: generateInitialGrid_cells)
qed

lemma handleCellPress_bound:
  assumes "handleCellPress s row col = Inr s'"
    and "\<forall>v \<in> set (concat (map (map cell_value) (grid s))). \<exists>m::int. v = of_int m \<and> \<bar>m\<bar> \<le> 9"
    and "\<forall>cv. currentValue s = Some cv \<longrightarrow> \<bar>cv\<bar> \<le> 2 ^ (4 * moves s)"
  shows "(\<forall>v \<in> set (concat (map (map cell_value) (grid s'))). \<exists>m::int. v = of_int m \<and> \<bar>m\<bar> \<le> 9) \<and>
    (\<forall>cv. currentValue s' = Some cv \<longrightarrow> \<bar>cv\<bar> \<le> 2 ^ (4 * moves s'))"
  using assms(1)
proof (cases rule: handleCellPress_cases)
  case unchanged
  then show ?thesis using assms(2,3) by simp
next
  case (first cell)
  from grid_cell_value [OF first(1)] assms(2) obtain m :: int where
    m: "cell_value cell = of_int m" "\<bar>m\<bar> \<le> 9" by blast
  have "(of_int \<bar>m\<bar> :: rat) \<le> of_int 9" using m(2) by (simp only: of_int_le_iff)
  then have "\<bar>cell_value cell\<bar> \<le> 9" by (simp add: m(1))
  moreover have "(16::rat) \<le> 2 ^ (4 * (moves s + 1))"
    using power_increasing [of 4 "4 * (moves s + 1)" "2::rat"] by simp
  ultimately have "\<bar>cell_value cell\<bar> \<le> 2 ^ (4 * (moves s + 1))" by linarith
  then show ?thesis
    using first(5) assms(2) by (simp add: first_selection_def mark_used_values)
next
  case (move cell cv selRow selCol operation)
  from grid_cell_value [OF move(1)] assms(2) obtain m :: int where
    m: "cell_value cell = of_int m" "\<bar>m\<bar> \<le> 9" by blast
  have "\<bar>cv\<bar> \<le> 2 ^ (4 * moves s)" using assms(3) move(4) by simp
  then have "\<bar>compute_result operation cv (cell_value cell)\<bar> \<le> 2 ^ (4 * moves s + 4)"
    using m by (rule compute_result_bound)
  then show ?thesis
    using move(7) assms(2) by (simp add: applied_move_def mark_used_values add.commute)
qed

lemma reachable_bound:
  assumes "reachable s"
  shows "(\<forall>v \<in> set (concat (map (map cell_value) (grid s))). \<exists>m::int. v = of_int m \<and> \<bar>m\<bar> \<le> 9) \<and>
    (\<forall>cv. currentValue s = Some cv \<longrightarrow> \<bar>cv\<bar> \<le> 2 ^ (4 * moves s))"
  using assms
proof (induction rule: reachable.induct)
  case (fresh random)
  then show ?case using generateInitialGrid_values [of random] by (simp add: initialState_def)
next
  case (tapped s row col s')
  from onCellTapped_fields [OF tapped.hyps(2)] show ?case
  proof (elim disjE exE conjE)
    assume "s' = s"
    then show ?thesis using tapped.IH by simp
  next
    fix s1
    assume h: "handleCellPress s row col = Inr s1"
      and f: "grid s' = grid s1" "currentValue s' = currentValue s1" "moves s' = moves s1"
    have "(\<forall>v \<in> set (concat (map (map cell_value) (grid s1))). \<exists>m::int. v = of_int m \<and> \<bar>m\<bar> \<le> 9) \<and>
      (\<forall>cv. currentValue s1 = Some cv \<longrightarrow> \<bar>cv\<bar> \<le> 2 ^ (4 * moves s1))"
      using handleCellPress_bound [OF h] tapped.IH by blast
    then show ?thesis unfolding f .
  qed
next
  case (reset s random)
  then show ?case using generateInitialGrid_values [of random] by (simp add: resetGame_def)
qed

lemma count_used_le:
  assumes "wf_grid g"
  shows "count_used g \<le> 16"
proof -
  have "\<forall>r \<in> set g. length r = 4" "length g = 4"
    using assms by (simp_all add: wf_grid_def GRID_SIZE_def list_all_iff)
  then have "map length g = map (\<lambda>r. 4) g" "length g = 4" by simp_all
  then have "map length g = replicate 4 4" by (simp only: map_replicate_const)
  then have "length (concat g) = 16" by (simp add: length_concat sum_list_replicate)
  moreover have "count_used g \<le> length (concat g)" by (simp add: count_used_def)
  ultimately show ?thesis by simp
qed

text \<open>
  In play no running value reaches \<open>2\<^sup>6\<^sup>4\<close>, and by \<open>divide_bound\<close> no intermediate
  result of a move reaches \<open>2\<^sup>7\<^sup>1\<close>: the overflow of doubles, at \<open>2\<^sup>1\<^sup>0\<^sup>2\<^sup>4\<close>, does
  not occur.
\<close>

lemma reachable_no_overflow:
  assumes "reachable s" "currentValue s = Some cv"
  shows "\<bar>cv\<bar> \<le> 2 ^ 64"
proof -
  note inv = reachable_invariant [OF assms(1)]
  have "moves s \<le> 16" using inv count_used_le [of "grid s"] by simp
  then have "(2::rat) ^ (4 * moves s) \<le> 2 ^ 64"
    by (intro power_increasing) simp_all
  moreover have "\<bar>cv\<bar> \<le> 2 ^ (4 * moves s)" using reachable_bound [OF assms(1)] assms(2) by simp
  ultimately show ?thesis by linarith
qed

end
